theory Spec2Isabelle
  imports Main "HOL-Library.Word"
begin

section \<open>JavaScript values\<close>

text \<open>
  A JavaScript string is a sequence of 16-bit code units; a \<open>Uint8Array\<close> is a sequence
  of bytes. \<open>null\<close> and \<open>undefined\<close> are \<open>None\<close>. A thrown value is an \<open>Error\<close>
  object with its message, the \<open>InvalidCharacterError\<close> of \<open>atob\<close>, the \<open>RangeError\<close>
  of a call with too many arguments, or something that is no \<open>Error\<close> (the source
  tests \<open>error instanceof Error\<close>).
\<close>

type_synonym byte = "8 word"
type_synonym jsstring = "16 word list"

definition js :: "string \<Rightarrow> jsstring" where
  "js s = map (\<lambda>c. of_nat (of_char c)) s"

text \<open>Truthiness of a \<open>string | null\<close>: \<open>null\<close> and the empty string are falsy.\<close>

definition truthy :: "jsstring option \<Rightarrow> bool" where
  "truthy v = (case v of None \<Rightarrow> False | Some s \<Rightarrow> s \<noteq> [])"

datatype thrown = Error jsstring | InvalidCharacterError | RangeError | NonError

text \<open>
  \<open>error instanceof Error ? error.message : d\<close>. The \<open>DOMException\<close> that \<open>atob\<close>
  throws and a \<open>RangeError\<close> are \<open>Error\<close>s; the wording of their messages is the
  browser's.
\<close>

definition message_or :: "thrown \<Rightarrow> jsstring \<Rightarrow> jsstring" where
  "message_or e d =
     (case e of Error m \<Rightarrow> m
      | InvalidCharacterError \<Rightarrow> js ''The string to be decoded is not correctly encoded.''
      | RangeError \<Rightarrow> js ''Maximum call stack size exceeded''
      | NonError \<Rightarrow> d)"

text \<open>
  \<open>Number(b)\<close> of a bigint \<open>b\<close> is the double nearest to \<open>b\<close>, a tie going to the even
  significand: \<open>b\<close> itself below \<open>2^53\<close>, and above it the 53 leading bits, rounded.
  From about \<open>2^1024\<close> on the source has \<open>Infinity\<close>, which is outside this model.
\<close>

fun bit_length :: "nat \<Rightarrow> nat" where
  "bit_length n = (if n = 0 then 0 else Suc (bit_length (n div 2)))"

declare bit_length.simps [simp del]

definition Number :: "int \<Rightarrow> int" where
  "Number b =
     (let a = nat \<bar>b\<bar> in
      if a < 2 ^ 53 then b
      else
        let e = bit_length a - 53;
            q = a div 2 ^ e;
            r = a mod 2 ^ e;
            m = (if 2 ^ e < 2 * r \<or> (2 * r = 2 ^ e \<and> odd q) then q + 1 else q)
        in sgn b * int (m * 2 ^ e))"

section \<open>Platform functions used by the vault (lib/crypto)\<close>

subsection \<open>TextEncoder and TextDecoder\<close>

text \<open>
  \<open>TextEncoder.encode\<close> first turns the code units into scalar values (a surrogate
  pair becomes one code point, a lone surrogate becomes U+FFFD), then writes each in
  UTF-8. Bit operations are written arithmetically: \<open>x >> 6\<close> is \<open>x div 64\<close>,
  \<open>x & 0x3F\<close> is \<open>x mod 64\<close>.
\<close>

definition is_high_surrogate :: "nat \<Rightarrow> bool" where
  "is_high_surrogate c = (0xD800 \<le> c \<and> c \<le> 0xDBFF)"

definition is_low_surrogate :: "nat \<Rightarrow> bool" where
  "is_low_surrogate c = (0xDC00 \<le> c \<and> c \<le> 0xDFFF)"

definition is_surrogate :: "nat \<Rightarrow> bool" where
  "is_surrogate c = (0xD800 \<le> c \<and> c \<le> 0xDFFF)"

fun to_scalars :: "nat list \<Rightarrow> nat list" where
  "to_scalars [] = []"
| "to_scalars [c] = (if is_surrogate c then [0xFFFD] else [c])"
| "to_scalars (c # d # cs) =
     (if is_high_surrogate c \<and> is_low_surrogate d
      then (0x10000 + (c - 0xD800) * 0x400 + (d - 0xDC00)) # to_scalars cs
      else if is_surrogate c then 0xFFFD # to_scalars (d # cs)
      else c # to_scalars (d # cs))"

definition utf8_encode_cp :: "nat \<Rightarrow> nat list" where
  "utf8_encode_cp cp =
     (if cp < 0x80 then [cp]
      else if cp < 0x800 then [0xC0 + cp div 64, 0x80 + cp mod 64]
      else if cp < 0x10000
        then [0xE0 + cp div 4096, 0x80 + (cp div 64) mod 64, 0x80 + cp mod 64]
      else [0xF0 + cp div 262144, 0x80 + (cp div 4096) mod 64,
            0x80 + (cp div 64) mod 64, 0x80 + cp mod 64])"

definition TextEncoder_encode :: "jsstring \<Rightarrow> byte list" where
  "TextEncoder_encode s = map of_nat (concat (map utf8_encode_cp (to_scalars (map unat s))))"

text \<open>
  The UTF-8 decoder of the Encoding Standard, as \<open>new TextDecoder()\<close> runs it (not
  fatal, so it never throws). Its state is the code point being read, the bytes seen
  and needed, and the bounds of the next byte. A byte out of bounds emits U+FFFD and is
  then read again from the initial state.
\<close>

record utf8_state =
  code_point :: nat
  bytes_seen :: nat
  bytes_needed :: nat
  lower_boundary :: nat
  upper_boundary :: nat

definition utf8_initial :: utf8_state where
  "utf8_initial =
     \<lparr>code_point = 0, bytes_seen = 0, bytes_needed = 0,
      lower_boundary = 0x80, upper_boundary = 0xBF\<rparr>"

definition utf8_lead :: "nat \<Rightarrow> nat list \<times> utf8_state" where
  "utf8_lead b =
     (if b \<le> 0x7F then ([b], utf8_initial)
      else if 0xC2 \<le> b \<and> b \<le> 0xDF
        then ([], utf8_initial\<lparr>bytes_needed := 1, code_point := b mod 32\<rparr>)
      else if 0xE0 \<le> b \<and> b \<le> 0xEF
        then ([], utf8_initial\<lparr>bytes_needed := 2, code_point := b mod 16,
                  lower_boundary := (if b = 0xE0 then 0xA0 else 0x80),
                  upper_boundary := (if b = 0xED then 0x9F else 0xBF)\<rparr>)
      else if 0xF0 \<le> b \<and> b \<le> 0xF4
        then ([], utf8_initial\<lparr>bytes_needed := 3, code_point := b mod 8,
                  lower_boundary := (if b = 0xF0 then 0x90 else 0x80),
                  upper_boundary := (if b = 0xF4 then 0x8F else 0xBF)\<rparr>)
      else ([0xFFFD], utf8_initial))"

fun utf8_decode :: "utf8_state \<Rightarrow> nat list \<Rightarrow> nat list" where
  "utf8_decode st [] = (if bytes_needed st \<noteq> 0 then [0xFFFD] else [])"
| "utf8_decode st (b # bs) =
     (if bytes_needed st = 0
      then (case utf8_lead b of (out, st') \<Rightarrow> out @ utf8_decode st' bs)
      else if b < lower_boundary st \<or> upper_boundary st < b
        then (case utf8_lead b of (out, st') \<Rightarrow> 0xFFFD # out @ utf8_decode st' bs)
      else if Suc (bytes_seen st) \<noteq> bytes_needed st
        then utf8_decode
               (st\<lparr>lower_boundary := 0x80, upper_boundary := 0xBF,
                   code_point := code_point st * 64 + b mod 64,
                   bytes_seen := Suc (bytes_seen st)\<rparr>) bs
      else (code_point st * 64 + b mod 64) # utf8_decode utf8_initial bs)"

text \<open>A code point as code units, and the leading byte order mark that is dropped.\<close>

definition from_scalar :: "nat \<Rightarrow> nat list" where
  "from_scalar cp =
     (if cp < 0x10000 then [cp]
      else [0xD800 + (cp - 0x10000) div 0x400, 0xDC00 + (cp - 0x10000) mod 0x400])"

fun strip_bom :: "nat list \<Rightarrow> nat list" where
  "strip_bom [] = []"
| "strip_bom (cp # cps) = (if cp = 0xFEFF then cps else cp # cps)"

definition TextDecoder_decode :: "byte list \<Rightarrow> jsstring" where
  "TextDecoder_decode bs =
     map of_nat (concat (map from_scalar (strip_bom (utf8_decode utf8_initial (map unat bs)))))"

subsection \<open>btoa and atob\<close>

definition b64_char :: "nat \<Rightarrow> 16 word" where
  "b64_char i =
     of_nat (if i < 26 then 65 + i else if i < 52 then 71 + i
             else if i < 62 then i - 4 else if i = 62 then 43 else 47)"

definition b64_index :: "16 word \<Rightarrow> nat option" where
  "b64_index c =
     (let n = unat c in
      if 65 \<le> n \<and> n \<le> 90 then Some (n - 65)
      else if 97 \<le> n \<and> n \<le> 122 then Some (n - 71)
      else if 48 \<le> n \<and> n \<le> 57 then Some (n + 4)
      else if n = 43 then Some 62
      else if n = 47 then Some 63
      else None)"

fun sextets :: "nat list \<Rightarrow> nat list" where
  "sextets (a # b # c # r) =
     [a div 4, (a mod 4) * 16 + b div 16, (b mod 16) * 4 + c div 64, c mod 64] @ sextets r"
| "sextets [a, b] = [a div 4, (a mod 4) * 16 + b div 16, (b mod 16) * 4]"
| "sextets [a] = [a div 4, (a mod 4) * 16]"
| "sextets [] = []"

text \<open>\<open>btoa\<close> throws when a code unit is above 0xFF; otherwise it is padded base64.\<close>

definition btoa :: "jsstring \<Rightarrow> thrown + jsstring" where
  "btoa s =
     (if list_ex (\<lambda>c. 0xFF < unat c) s then Inl InvalidCharacterError
      else Inr (map b64_char (sextets (map unat s))
                @ replicate ((3 - length s mod 3) mod 3) 61))"

fun octets :: "nat list \<Rightarrow> nat list" where
  "octets (p # q # r # s # rest) =
     [p * 4 + q div 16, (q mod 16) * 16 + r div 4, (r mod 4) * 64 + s] @ octets rest"
| "octets [p, q, r] = [p * 4 + q div 16, (q mod 16) * 16 + r div 4]"
| "octets [p, q] = [p * 4 + q div 16]"
| "octets [p] = []"
| "octets [] = []"

definition ascii_whitespace :: "16 word \<Rightarrow> bool" where
  "ascii_whitespace c = (c = 9 \<or> c = 10 \<or> c = 12 \<or> c = 13 \<or> c = 32)"

definition strip_padding :: "jsstring \<Rightarrow> jsstring" where
  "strip_padding d =
     (if length d mod 4 = 0
      then (case rev d of
              x # y # r \<Rightarrow> if x = 61 \<and> y = 61 then rev r
                            else if x = 61 then rev (y # r) else d
            | _ \<Rightarrow> d)
      else d)"

fun indices :: "jsstring \<Rightarrow> nat list option" where
  "indices [] = Some []"
| "indices (c # cs) =
     (case b64_index c of None \<Rightarrow> None
      | Some i \<Rightarrow> (case indices cs of None \<Rightarrow> None | Some is \<Rightarrow> Some (i # is)))"

text \<open>
  \<open>atob\<close> is the forgiving-base64 decode: whitespace is removed, then up to two
  padding characters when the length is a multiple of four; a length of 1 modulo 4 or
  a character outside the alphabet throws.
\<close>

definition atob :: "jsstring \<Rightarrow> thrown + jsstring" where
  "atob s =
     (let d = strip_padding (filter (\<lambda>c. \<not> ascii_whitespace c) s) in
      if length d mod 4 = 1 then Inl InvalidCharacterError
      else (case indices d of
              None \<Rightarrow> Inl InvalidCharacterError
            | Some is \<Rightarrow> Inr (map of_nat (octets is))))"

text \<open>
  \<open>String.fromCharCode(...bytes)\<close> passes every byte as one argument of the call. An
  engine accepts only so many arguments and throws a \<open>RangeError\<close> beyond; the limit
  is the engine's and is a parameter here. \<open>char_codes\<close> is the string the call
  returns, one code unit for each byte.
\<close>

definition char_codes :: "byte list \<Rightarrow> jsstring" where
  "char_codes bs = map (\<lambda>b. of_nat (unat b)) bs"

definition String_fromCharCode :: "nat \<Rightarrow> byte list \<Rightarrow> thrown + jsstring" where
  "String_fromCharCode limit bs =
     (if limit < length bs then Inl RangeError else Inr (char_codes bs))"

text \<open>\<open>Uint8Array.from(s, c => c.charCodeAt(0))\<close>.\<close>

definition Uint8Array_from :: "jsstring \<Rightarrow> byte list" where
  "Uint8Array_from s = map (\<lambda>c. of_nat (unat c)) s"

subsection \<open>Web Crypto and the engine\<close>

text \<open>
  The cryptographic primitives are the browser's, as is the limit on the arguments of
  a call (\<open>argument_limit\<close>). \<open>deriveKey\<close> stands for
  \<open>importKey\<close> followed by \<open>deriveKey\<close> (PBKDF2, 100000 iterations, SHA-256, an AES-GCM
  key of 256 bits) on the password bytes and the salt; \<open>encrypt\<close> and \<open>decrypt\<close> are
  AES-GCM with the key, the IV and the data, \<open>decrypt\<close> answering \<open>None\<close> where the
  browser rejects with an \<open>OperationError\<close>. The random salt, IV and UUID are inputs.
\<close>

record 'k Browser =
  deriveKey :: "byte list \<Rightarrow> byte list \<Rightarrow> 'k"
  encrypt :: "'k \<Rightarrow> byte list \<Rightarrow> byte list \<Rightarrow> byte list"
  decrypt :: "'k \<Rightarrow> byte list \<Rightarrow> byte list \<Rightarrow> byte list option"
  argument_limit :: nat

section \<open>The vault (encryptMnemonic, decryptMnemonic)\<close>

text \<open>
  \<open>encryptMnemonic\<close> spreads the bytes of the envelope into the arguments of
  \<open>String.fromCharCode\<close>, so it throws when they are more than the engine accepts.
\<close>

definition encryptMnemonic ::
  "'k Browser \<Rightarrow> byte list \<Rightarrow> byte list \<Rightarrow> jsstring \<Rightarrow> jsstring \<Rightarrow> thrown + jsstring" where
  "encryptMnemonic c salt iv mnemonic password =
     (let data = TextEncoder_encode mnemonic;
          key = deriveKey c (TextEncoder_encode password) salt;
          ciphertext = encrypt c key iv data;
          result = salt @ iv @ ciphertext
      in (case String_fromCharCode (argument_limit c) result of
            Inl e \<Rightarrow> Inl e
          | Inr binary \<Rightarrow> btoa binary))"

definition decryptMnemonic :: "'k Browser \<Rightarrow> jsstring \<Rightarrow> jsstring \<Rightarrow> thrown + jsstring" where
  "decryptMnemonic c encryptedMnemonic password =
     (case atob encryptedMnemonic of
        Inl e \<Rightarrow> Inl e
      | Inr binary \<Rightarrow>
          let encryptedData = Uint8Array_from binary;
              salt = take 16 encryptedData;
              iv = take 12 (drop 16 encryptedData);
              ciphertext = drop 28 encryptedData;
              key = deriveKey c (TextEncoder_encode password) salt
          in (case decrypt c key iv ciphertext of
                Some decrypted \<Rightarrow> Inr (TextDecoder_decode decrypted)
              | None \<Rightarrow> Inl (Error (js ''Invalid password''))))"

text \<open>
  The bytes that \<open>encryptMnemonic\<close> encodes: the salt, the IV, then the ciphertext
  with its tag.
\<close>

definition envelope :: "'k Browser \<Rightarrow> byte list \<Rightarrow> byte list \<Rightarrow> jsstring \<Rightarrow> jsstring \<Rightarrow> byte list" where
  "envelope c salt iv secret password =
     salt @ iv @ encrypt c (deriveKey c (TextEncoder_encode password) salt) iv (TextEncoder_encode secret)"

text \<open>Sealing under one password, then opening under another.\<close>

definition open_sealed ::
  "'k Browser \<Rightarrow> byte list \<Rightarrow> byte list \<Rightarrow> jsstring \<Rightarrow> jsstring \<Rightarrow> jsstring
     \<Rightarrow> thrown + jsstring" where
  "open_sealed c salt iv secret password password' =
     (case encryptMnemonic c salt iv secret password of
        Inl e \<Rightarrow> Inl e
      | Inr sealed \<Rightarrow> decryptMnemonic c sealed password')"

text \<open>
  What is asked of AES-GCM: decryption under the same key and IV gives the data back
  (which holds of the cipher), and decryption under another key is rejected (which
  holds of it up to a forgery of the 128-bit tag).
\<close>

definition decrypts_own :: "'k Browser \<Rightarrow> bool" where
  "decrypts_own c = (\<forall>k iv d. decrypt c k iv (encrypt c k iv d) = Some d)"

definition rejects_other_keys :: "'k Browser \<Rightarrow> bool" where
  "rejects_other_keys c = (\<forall>k k' iv d. k \<noteq> k' \<longrightarrow> decrypt c k' iv (encrypt c k iv d) = None)"

text \<open>Strings without a lone surrogate (\<open>String.prototype.isWellFormed\<close>).\<close>

fun well_formed_units :: "nat list \<Rightarrow> bool" where
  "well_formed_units [] = True"
| "well_formed_units [c] = (\<not> is_surrogate c)"
| "well_formed_units (c # d # cs) =
     (if is_high_surrogate c then is_low_surrogate d \<and> well_formed_units cs
      else \<not> is_surrogate c \<and> well_formed_units (d # cs))"

definition isWellFormed :: "jsstring \<Rightarrow> bool" where
  "isWellFormed s = well_formed_units (map unat s)"

definition scalar_value :: "nat \<Rightarrow> bool" where
  "scalar_value cp = (cp < 0x110000 \<and> \<not> is_surrogate cp)"

section \<open>The mnemonic store (use-mnemonic-store)\<close>

record Session =
  sessionKey :: "jsstring option"
  expiresAt :: "int option"

record MnemonicState =
  encryptedMnemonic :: "jsstring option"
  sessionEncryptedMnemonic :: "jsstring option"
  session :: Session

definition initial_mnemonic_state :: MnemonicState where
  "initial_mnemonic_state =
     \<lparr>encryptedMnemonic = None, sessionEncryptedMnemonic = None,
      session = \<lparr>sessionKey = None, expiresAt = None\<rparr>\<rparr>"

text \<open>
  The store is created with zustand's \<open>persist\<close> middleware under the name
  \<open>mnemonic-storage\<close>, with no \<open>storage\<close> and no \<open>partialize\<close> option: every \<open>set\<close>
  writes the whole state (its three data fields) to that item of \<open>localStorage\<close>, and
  creating the store reads the item back over the initial state.
\<close>

record MnemonicStore =
  state :: MnemonicState
  mnemonic_storage :: "MnemonicState option"

definition persist_set :: "(MnemonicState \<Rightarrow> MnemonicState) \<Rightarrow> MnemonicStore \<Rightarrow> MnemonicStore" where
  "persist_set f st = (let m = f (state st) in \<lparr>state = m, mnemonic_storage = Some m\<rparr>)"

definition create_store :: "MnemonicState option \<Rightarrow> MnemonicStore" where
  "create_store stored =
     \<lparr>state = (case stored of None \<Rightarrow> initial_mnemonic_state | Some persisted \<Rightarrow> persisted),
      mnemonic_storage = stored\<rparr>"

text \<open>
  A full restart of the application: the memory of the process is gone, \<open>localStorage\<close>
  is what it was, and the store is created anew.
\<close>

definition restart :: "MnemonicStore \<Rightarrow> MnemonicStore" where
  "restart st = create_store (mnemonic_storage st)"

definition saveEncryptedMnemonic ::
  "'k Browser \<Rightarrow> byte list \<Rightarrow> byte list \<Rightarrow> jsstring \<Rightarrow> jsstring \<Rightarrow> MnemonicStore
     \<Rightarrow> (thrown + unit) \<times> MnemonicStore" where
  "saveEncryptedMnemonic c salt iv mnemonic password st =
     (case encryptMnemonic c salt iv mnemonic password of
        Inl e \<Rightarrow> (Inl e, st)
      | Inr encrypted \<Rightarrow> (Inr (), persist_set (\<lambda>m. m\<lparr>encryptedMnemonic := Some encrypted\<rparr>) st))"

definition getDecryptedMnemonic ::
  "'k Browser \<Rightarrow> jsstring \<Rightarrow> MnemonicState \<Rightarrow> thrown + jsstring" where
  "getDecryptedMnemonic c password m =
     (case encryptedMnemonic m of
        None \<Rightarrow> Inl (Error (js ''No encrypted mnemonic found''))
      | Some encrypted \<Rightarrow>
          if encrypted = [] then Inl (Error (js ''No encrypted mnemonic found''))
          else decryptMnemonic c encrypted password)"

text \<open>
  \<open>startSession\<close>: the salt and IV of the sealing, the UUID and the clock are inputs.
  Nothing is written before both awaits have succeeded.
\<close>

definition startSession ::
  "'k Browser \<Rightarrow> byte list \<Rightarrow> byte list \<Rightarrow> jsstring \<Rightarrow> int \<Rightarrow> jsstring \<Rightarrow> MnemonicStore
     \<Rightarrow> (thrown + unit) \<times> MnemonicStore" where
  "startSession c salt iv randomUUID now password st =
     (case getDecryptedMnemonic c password (state st) of
        Inl e \<Rightarrow> (Inl e, st)
      | Inr mnemonic \<Rightarrow>
          (case encryptMnemonic c salt iv mnemonic randomUUID of
             Inl e \<Rightarrow> (Inl e, st)
           | Inr sealed \<Rightarrow>
               (Inr (),
                persist_set
                  (\<lambda>m. m\<lparr>sessionEncryptedMnemonic := Some sealed,
                         session := \<lparr>sessionKey = Some randomUUID,
                                     expiresAt = Some (now + 30 * 60 * 1000)\<rparr>\<rparr>) st)))"

definition getSessionMnemonic ::
  "'k Browser \<Rightarrow> int \<Rightarrow> MnemonicState \<Rightarrow> thrown + jsstring option" where
  "getSessionMnemonic c now m =
     (case (sessionKey (session m), expiresAt (session m), sessionEncryptedMnemonic m) of
        (Some key, Some expires, Some sealed) \<Rightarrow>
          if key \<noteq> [] \<and> expires \<noteq> 0 \<and> now < expires \<and> sealed \<noteq> []
          then (case decryptMnemonic c sealed key of
                  Inl e \<Rightarrow> Inl e
                | Inr mnemonic \<Rightarrow> Inr (Some mnemonic))
          else Inr None
      | _ \<Rightarrow> Inr None)"

definition endSession :: "MnemonicStore \<Rightarrow> MnemonicStore" where
  "endSession st =
     persist_set (\<lambda>m. m\<lparr>session := \<lparr>sessionKey = None, expiresAt = None\<rparr>,
                        sessionEncryptedMnemonic := None\<rparr>) st"

definition clearEncryptedMnemonic :: "MnemonicStore \<Rightarrow> MnemonicStore" where
  "clearEncryptedMnemonic st =
     persist_set (\<lambda>m. m\<lparr>encryptedMnemonic := None, sessionEncryptedMnemonic := None,
                        session := \<lparr>sessionKey = None, expiresAt = None\<rparr>\<rparr>) st"

section \<open>The wallet store (use-wallet-store)\<close>

datatype InitializationStatus =
  Idle | Loading | Success | Needs_password | No_wallet | Init_error

datatype NetworkType = MAINNET | REGTEST | TESTNET | SIGNET | LOCAL

text \<open>
  The handle of the external ledger client. Its methods are calls out of the program;
  the record holds what the three methods called during initialisation answer.
\<close>

record SparkWallet =
  getSparkAddress :: "thrown + jsstring"
  getIdentityPublicKey :: "thrown + jsstring"
  getUnusedDepositAddresses :: "thrown + jsstring list"

text \<open>
  The state of the store. The currency fields (\<open>activeInputCurrency\<close>, \<open>activeAsset\<close>,
  \<open>assets\<close>) play no role in the operations modelled here and are left out.
  \<open>onchainDepositAddresses\<close> is a JavaScript \<open>Set\<close>, kept in insertion order.
  Balances are JavaScript numbers holding integers.
\<close>

record WalletState =
  wallet :: "SparkWallet option"
  sparkAddress :: jsstring
  pubkey :: jsstring
  initWalletNetwork :: NetworkType
  mnemonic :: "jsstring option"
  isInitialized :: bool
  initializationStatus :: InitializationStatus
  initializationError :: "jsstring option"
  onchainDepositAddresses :: "jsstring list"
  btcBalance :: "int option"
  tokenBalances :: "(jsstring \<times> int) list"

text \<open>What the program does to the outside, in the order it does it.\<close>

datatype effect =
    Toast_Funds_Received int
  | InvalidateQueries_transactions jsstring
  | Warn_balance_mismatch int int
  | Call_getBalance
  | Call_getLatestDepositTxId jsstring
  | Call_claimDeposit jsstring
  | Call_initialize jsstring NetworkType

definition setBalance :: "int \<Rightarrow> (jsstring \<times> int) list \<Rightarrow> WalletState \<Rightarrow> WalletState" where
  "setBalance b tb s = s\<lparr>btcBalance := Some b, tokenBalances := tb\<rparr>"

definition setInitializationStatus ::
  "InitializationStatus \<Rightarrow> jsstring option \<Rightarrow> WalletState \<Rightarrow> WalletState" where
  "setInitializationStatus status err s =
     s\<lparr>initializationStatus := status, isInitialized := (status = Success),
       initializationError := err\<rparr>"

definition setOnchainDepositAddresses :: "jsstring list \<Rightarrow> WalletState \<Rightarrow> WalletState" where
  "setOnchainDepositAddresses addresses s = s\<lparr>onchainDepositAddresses := addresses\<rparr>"

section \<open>The balance reconciler (handleBalanceUpdate)\<close>

text \<open>What \<open>wallet.getBalance()\<close> resolves to; either field may be missing.\<close>

record BalanceResponse =
  balance :: "int option"
  resp_tokenBalances :: "(jsstring \<times> int) list option"

text \<open>
  \<open>handleBalanceUpdate\<close> is defined inside an effect and closes over the values the
  component rendered with when the effect was set up: \<open>wallet\<close> and \<open>sparkAddress\<close>
  are read from that render, the previous balance from the store as it is now
  (\<open>useWalletStore.getState()\<close>).

  It is an async function with one \<open>await\<close>. Up to the await it checks \<open>isMounted\<close>
  and the wallet, reads the stored balance as the previous one and calls
  \<open>getBalance\<close>; the run is then in flight, holding what it read.
\<close>

record in_flight =
  previousBtcBalance :: "int option"
  balanceFromEvent :: "int option"

definition handleBalanceUpdate_begin ::
  "bool \<Rightarrow> WalletState \<Rightarrow> int option \<Rightarrow> WalletState \<Rightarrow> in_flight option \<times> effect list" where
  "handleBalanceUpdate_begin isMounted render fromEvent s =
     (if \<not> isMounted \<or> wallet render = None then (None, [])
      else (Some \<lparr>previousBtcBalance = btcBalance s, balanceFromEvent = fromEvent\<rparr>,
            [Call_getBalance]))"

text \<open>
  \<open>Number(currentBalance?.balance ?? 0)\<close> and \<open>currentBalance?.tokenBalances ?? new Map()\<close>.
\<close>

definition newBtcBalance :: "BalanceResponse option \<Rightarrow> int" where
  "newBtcBalance currentBalance =
     (case currentBalance of None \<Rightarrow> 0
      | Some cb \<Rightarrow> (case balance cb of None \<Rightarrow> 0 | Some b \<Rightarrow> Number b))"

definition newTokenBalances :: "BalanceResponse option \<Rightarrow> (jsstring \<times> int) list" where
  "newTokenBalances currentBalance =
     (case currentBalance of None \<Rightarrow> []
      | Some cb \<Rightarrow> (case resp_tokenBalances cb of None \<Rightarrow> [] | Some t \<Rightarrow> t))"

text \<open>
  After the await: a rejected \<open>getBalance\<close> is caught and only logged; a run whose
  component was unmounted meanwhile returns at once; otherwise the store is updated,
  then the toast is shown if there was a previous balance and the new one is larger.
  The increase is a subtraction of doubles, hence the double nearest to the
  difference.
\<close>

definition handleBalanceUpdate_resume ::
  "in_flight \<Rightarrow> bool \<Rightarrow> WalletState \<Rightarrow> thrown + BalanceResponse option \<Rightarrow> WalletState
     \<Rightarrow> WalletState \<times> effect list" where
  "handleBalanceUpdate_resume r isMounted render fetched s =
     (case fetched of
        Inl e \<Rightarrow> (s, [])
      | Inr currentBalance \<Rightarrow>
          if \<not> isMounted then (s, [])
          else
            let new = newBtcBalance currentBalance;
                s' = setBalance new (newTokenBalances currentBalance) s;
                toast =
                  (case previousBtcBalance r of
                     None \<Rightarrow> []
                   | Some previous \<Rightarrow>
                       if new > previous
                       then [Toast_Funds_Received (Number (new - previous)),
                             InvalidateQueries_transactions (sparkAddress render)]
                       else []);
                warn =
                  (case balanceFromEvent r of
                     None \<Rightarrow> []
                   | Some hint \<Rightarrow> if new \<noteq> hint then [Warn_balance_mismatch hint new] else [])
            in (s', toast @ warn))"

text \<open>A run that nothing interleaves with: both halves, one after the other.\<close>

definition handleBalanceUpdate ::
  "bool \<Rightarrow> bool \<Rightarrow> WalletState \<Rightarrow> int option \<Rightarrow> thrown + BalanceResponse option
     \<Rightarrow> WalletState \<Rightarrow> WalletState \<times> effect list" where
  "handleBalanceUpdate mountedAtCall mountedAfterAwait render fromEvent fetched s =
     (case handleBalanceUpdate_begin mountedAtCall render fromEvent s of
        (None, es) \<Rightarrow> (s, es)
      | (Some r, es) \<Rightarrow>
          (let (s', es') = handleBalanceUpdate_resume r mountedAfterAwait render fetched s
           in (s', es @ es')))"

fun notifications :: "effect list \<Rightarrow> int list" where
  "notifications [] = []"
| "notifications (Toast_Funds_Received d # es) = d # notifications es"
| "notifications (e # es) = notifications es"

definition fetched_balance :: "int \<Rightarrow> thrown + BalanceResponse option" where
  "fetched_balance b = Inr (Some \<lparr>balance = Some b, resp_tokenBalances = None\<rparr>)"

definition initial_state :: WalletState where
  "initial_state =
     \<lparr>wallet = None, sparkAddress = [], pubkey = [], initWalletNetwork = MAINNET,
      mnemonic = None, isInitialized = False, initializationStatus = Idle,
      initializationError = None, onchainDepositAddresses = [], btcBalance = None,
      tokenBalances = []\<rparr>"

definition ready_wallet :: SparkWallet where
  "ready_wallet =
     \<lparr>getSparkAddress = Inr (js ''sp1''), getIdentityPublicKey = Inr (js ''02ab''),
      getUnusedDepositAddresses = Inr []\<rparr>"

section \<open>Interleaved reconciliation runs\<close>

text \<open>
  The event handlers and the initial fetch call \<open>handleBalanceUpdate\<close> without waiting
  for a run that is already in flight, and JavaScript runs each half of a run (up to
  the await, after the await) without interruption. A schedule is therefore a sequence
  of these halves: \<open>Trigger\<close> starts a run, \<open>Complete i\<close> lets the \<open>i\<close>-th run in
  flight receive its answer from \<open>getBalance\<close>. The component stays mounted, and
  \<open>render\<close> is the state it rendered with when the effect was set up.
\<close>

datatype step = Trigger "int option" | Complete nat "thrown + BalanceResponse option"

record reconciler =
  store :: WalletState
  render :: WalletState
  pending :: "in_flight list"
  log :: "effect list"

fun run_step :: "step \<Rightarrow> reconciler \<Rightarrow> reconciler" where
  "run_step (Trigger fromEvent) r =
     (case handleBalanceUpdate_begin True (render r) fromEvent (store r) of
        (None, es) \<Rightarrow> r\<lparr>log := log r @ es\<rparr>
      | (Some run, es) \<Rightarrow> r\<lparr>pending := pending r @ [run], log := log r @ es\<rparr>)"
| "run_step (Complete i fetched) r =
     (if i < length (pending r)
      then (let (s', es) = handleBalanceUpdate_resume (pending r ! i) True (render r) fetched (store r)
            in r\<lparr>store := s', pending := take i (pending r) @ drop (Suc i) (pending r),
                 log := log r @ es\<rparr>)
      else r)"

fun run_schedule :: "step list \<Rightarrow> reconciler \<Rightarrow> reconciler" where
  "run_schedule [] r = r"
| "run_schedule (x # xs) r = run_schedule xs (run_step x r)"

text \<open>The effect just set up in state \<open>s\<close>: nothing in flight yet.\<close>

definition quiet :: "WalletState \<Rightarrow> reconciler" where
  "quiet s = \<lparr>store = s, render = s, pending = [], log = []\<rparr>"

section \<open>The deposit claim loop (the l1Deposit query)\<close>

text \<open>
  One cycle of the query function. \<open>getLatestDepositTxId\<close> and \<open>wallet.claimDeposit\<close>
  are calls to the outside; the two parameters give, for this cycle, what the call for
  an address (a transaction id) answers, \<open>Inl\<close> being a rejected promise.

  \<open>map\<close> runs every callback up to its first \<open>await\<close>, so all the queries are issued
  first, in the order of the set. A callback goes on when its query settles:
  \<open>l1Deposit_address\<close> is what it does then and how it ends. Each touches only its own
  address, so this is a function of the address.
\<close>

datatype outcome = Query_rejected thrown | No_deposit | Claimed | Claim_rejected thrown

definition l1Deposit_address ::
  "(jsstring \<Rightarrow> thrown + jsstring option) \<Rightarrow> (jsstring \<Rightarrow> thrown + unit) \<Rightarrow> jsstring
     \<Rightarrow> outcome \<times> effect list" where
  "l1Deposit_address getLatestDepositTxId claimDeposit addr =
     (case getLatestDepositTxId addr of
        Inl e \<Rightarrow> (Query_rejected e, [])
      | Inr None \<Rightarrow> (No_deposit, [])
      | Inr (Some latestDepositTxId) \<Rightarrow>
          if latestDepositTxId = [] then (No_deposit, [])
          else (case claimDeposit latestDepositTxId of
                  Inr u \<Rightarrow> (Claimed, [Call_claimDeposit latestDepositTxId])
                | Inl e \<Rightarrow> (Claim_rejected e, [Call_claimDeposit latestDepositTxId])))"

fun first_rejection :: "outcome list \<Rightarrow> thrown option" where
  "first_rejection [] = None"
| "first_rejection (Query_rejected e # os) = Some e"
| "first_rejection (x # os) = first_rejection os"

text \<open>
  \<open>settles_at\<close> is the time at which the query of an address settles; the callbacks go
  on in that order (in the order of the set where the times are equal), and
  \<open>Promise.all\<close> rejects with the rejection that comes first in it.

  The result is \<open>Inl\<close> when the query function rejects, \<open>Inr None\<close> when it returns
  \<open>null\<close> (wallet not ready) and \<open>Inr (Some claimedSomething)\<close> otherwise. A rejected
  \<open>getLatestDepositTxId\<close> is outside the \<open>try\<close>: it rejects the callback, hence
  \<open>Promise.all\<close> and the query function, and the store is not written; the other
  callbacks still run to their end.
\<close>

definition l1Deposit ::
  "(jsstring \<Rightarrow> thrown + jsstring option) \<Rightarrow> (jsstring \<Rightarrow> thrown + unit) \<Rightarrow> (jsstring \<Rightarrow> nat)
     \<Rightarrow> WalletState \<Rightarrow> (thrown + bool option) \<times> WalletState \<times> effect list" where
  "l1Deposit getLatestDepositTxId claimDeposit settles_at s =
     (if wallet s = None then (Inr None, s, [])
      else
        let addrs = onchainDepositAddresses s;
            settled = sort_key settles_at addrs;
            unClaimedAddresses =
              filter (\<lambda>a. fst (l1Deposit_address getLatestDepositTxId claimDeposit a) \<noteq> Claimed) addrs;
            claimedSomething =
              list_ex (\<lambda>a. fst (l1Deposit_address getLatestDepositTxId claimDeposit a) = Claimed) addrs;
            effects =
              map Call_getLatestDepositTxId addrs
              @ concat (map (\<lambda>a. snd (l1Deposit_address getLatestDepositTxId claimDeposit a)) settled)
        in (case first_rejection
                  (map (\<lambda>a. fst (l1Deposit_address getLatestDepositTxId claimDeposit a)) settled) of
              Some e \<Rightarrow> (Inl e, s, effects)
            | None \<Rightarrow>
                (Inr (Some claimedSomething),
                 (if claimedSomething \<or> length addrs \<noteq> length unClaimedAddresses
                  then setOnchainDepositAddresses unClaimedAddresses s else s),
                 effects)))"

section \<open>Initialisation (initWallet, initWalletFromSeed, loadStoredWallet)\<close>

text \<open>The two items of \<open>sessionStorage\<close> that the wallet store reads and writes.\<close>

record SessionStorage =
  spark_wallet_mnemonic :: "jsstring option"
  spark_wallet_seed :: "jsstring option"

text \<open>\<open>new Set(array)\<close> keeps the first occurrence of each element, in order.\<close>

definition Set_of :: "'a list \<Rightarrow> 'a list" where
  "Set_of xs = rev (remdups (rev xs))"

text \<open>A \<open>string | null\<close> used as a condition: the value when truthy.\<close>

definition if_truthy :: "jsstring option \<Rightarrow> jsstring option" where
  "if_truthy v = (case v of None \<Rightarrow> None | Some x \<Rightarrow> if x = [] then None else Some x)"

text \<open>
  \<open>SparkWallet.initialize\<close> is the external wallet-open operation; the parameter
  \<open>initialize\<close> is what it answers for a secret and a network. Both functions catch
  whatever is thrown and record it in the status.
\<close>

definition initWallet ::
  "(jsstring \<Rightarrow> NetworkType \<Rightarrow> thrown + SparkWallet) \<Rightarrow> jsstring
     \<Rightarrow> WalletState \<times> SessionStorage \<Rightarrow> WalletState \<times> SessionStorage \<times> effect list" where
  "initWallet initialize phrase x =
     (case x of (s, ss) \<Rightarrow>
        let failed = (\<lambda>e s'. (setInitializationStatus Init_error
                                 (Some (message_or e (js ''Initialization failed''))) s',
                               ss, [Call_initialize phrase (initWalletNetwork s)]))
        in (case initialize phrase (initWalletNetwork s) of
              Inl e \<Rightarrow> failed e s
            | Inr w \<Rightarrow>
                (case getSparkAddress w of
                   Inl e \<Rightarrow> failed e (s\<lparr>wallet := Some w\<rparr>)
                 | Inr address \<Rightarrow>
                     (case getIdentityPublicKey w of
                        Inl e \<Rightarrow> failed e (s\<lparr>wallet := Some w, sparkAddress := address\<rparr>)
                      | Inr key \<Rightarrow>
                          (case getUnusedDepositAddresses w of
                             Inl e \<Rightarrow>
                               failed e (s\<lparr>wallet := Some w, sparkAddress := address,
                                           pubkey := key\<rparr>)
                           | Inr unused \<Rightarrow>
                               (setInitializationStatus Success None
                                  ((setOnchainDepositAddresses (Set_of unused)
                                      (s\<lparr>wallet := Some w, sparkAddress := address,
                                         pubkey := key\<rparr>))\<lparr>mnemonic := Some phrase\<rparr>),
                                ss\<lparr>spark_wallet_mnemonic := Some phrase\<rparr>,
                                [Call_initialize phrase (initWalletNetwork s)]))))))"

definition initWalletFromSeed ::
  "(jsstring \<Rightarrow> NetworkType \<Rightarrow> thrown + SparkWallet) \<Rightarrow> jsstring
     \<Rightarrow> WalletState \<times> SessionStorage \<Rightarrow> WalletState \<times> SessionStorage \<times> effect list" where
  "initWalletFromSeed initialize seed x =
     (case x of (s, ss) \<Rightarrow>
        let failed = (\<lambda>e s'. (setInitializationStatus Init_error
                                 (Some (message_or e (js ''Initialization from seed failed''))) s',
                               ss, [Call_initialize seed (initWalletNetwork s)]))
        in (case initialize seed (initWalletNetwork s) of
              Inl e \<Rightarrow> failed e s
            | Inr w \<Rightarrow>
                (case getSparkAddress w of
                   Inl e \<Rightarrow> failed e (s\<lparr>wallet := Some w\<rparr>)
                 | Inr address \<Rightarrow>
                     (case getIdentityPublicKey w of
                        Inl e \<Rightarrow> failed e (s\<lparr>wallet := Some w, sparkAddress := address\<rparr>)
                      | Inr key \<Rightarrow>
                          (case getUnusedDepositAddresses w of
                             Inl e \<Rightarrow>
                               failed e (s\<lparr>wallet := Some w, sparkAddress := address,
                                           pubkey := key\<rparr>)
                           | Inr unused \<Rightarrow>
                               (setInitializationStatus Success None
                                  (setOnchainDepositAddresses (Set_of unused)
                                     (s\<lparr>wallet := Some w, sparkAddress := address,
                                        pubkey := key\<rparr>)),
                                ss\<lparr>spark_wallet_seed := Some seed\<rparr>,
                                [Call_initialize seed (initWalletNetwork s)]))))))"

text \<open>
  \<open>loadStoredWallet\<close> returns the status it leaves in the store. It runs only from
  \<open>idle\<close> and \<open>needs_password\<close>. The sources are tried in the order of the source
  text: the mnemonic in \<open>sessionStorage\<close>, the seed in \<open>sessionStorage\<close>, the session
  of the mnemonic store; only \<open>getSessionMnemonic\<close> can throw inside the \<open>try\<close>.
\<close>

definition loadStoredWallet ::
  "'k Browser \<Rightarrow> int \<Rightarrow> (jsstring \<Rightarrow> NetworkType \<Rightarrow> thrown + SparkWallet)
     \<Rightarrow> MnemonicState \<Rightarrow> WalletState \<times> SessionStorage
     \<Rightarrow> InitializationStatus \<times> WalletState \<times> SessionStorage \<times> effect list" where
  "loadStoredWallet c now initialize m x =
     (case x of (s, ss) \<Rightarrow>
        if initializationStatus s \<noteq> Idle \<and> initializationStatus s \<noteq> Needs_password
        then (initializationStatus s, s, ss, [])
        else
          let s0 = (if initializationStatus s = Idle
                    then setInitializationStatus Loading None s else s);
              r = (case if_truthy (spark_wallet_mnemonic ss) of
                     Some sessionMnemonic \<Rightarrow> initWallet initialize sessionMnemonic (s0, ss)
                   | None \<Rightarrow>
                       (case if_truthy (spark_wallet_seed ss) of
                          Some storedSeed \<Rightarrow> initWalletFromSeed initialize storedSeed (s0, ss)
                        | None \<Rightarrow>
                            (case getSessionMnemonic c now m of
                               Inl e \<Rightarrow>
                                 ((if initializationStatus s0 \<noteq> Init_error
                                   then setInitializationStatus Init_error
                                          (Some (message_or e (js ''Loading failed''))) s0
                                   else s0), ss, [])
                             | Inr fromStore \<Rightarrow>
                                 (case if_truthy fromStore of
                                    Some sessionMnemonicFromStore \<Rightarrow>
                                      initWallet initialize sessionMnemonicFromStore (s0, ss)
                                  | None \<Rightarrow>
                                      (case if_truthy (encryptedMnemonic m) of
                                         Some encrypted \<Rightarrow>
                                           (setInitializationStatus Needs_password None s0, ss, [])
                                       | None \<Rightarrow>
                                           (setInitializationStatus No_wallet None s0, ss, []))))))
          in (initializationStatus (fst r), r))"

text \<open>The secrets handed to the external wallet-open operation, in order.\<close>

fun opened_with :: "effect list \<Rightarrow> jsstring list" where
  "opened_with [] = []"
| "opened_with (Call_initialize secret network # es) = secret # opened_with es"
| "opened_with (e # es) = opened_with es"

section \<open>Sample values\<close>

text \<open>
  A browser small enough to compute with. Its cipher has both properties asked of
  AES-GCM: the key is one byte, the data is shifted by the key, and the tag is one byte
  made of the key and the IV. Its engine accepts 65535 arguments.
\<close>

definition toy_browser :: "byte Browser" where
  "toy_browser =
     \<lparr>deriveKey = (\<lambda>password salt. sum_list password + sum_list salt),
      encrypt = (\<lambda>k iv d. map (\<lambda>b. b + k) d @ [k + sum_list iv]),
      decrypt = (\<lambda>k iv ct.
         if ct \<noteq> [] \<and> last ct = k + sum_list iv
         then Some (map (\<lambda>b. b - k) (butlast ct)) else None),
      argument_limit = 65535\<rparr>"

definition salt0 :: "byte list" where
  "salt0 = replicate 16 1"

definition iv0 :: "byte list" where
  "iv0 = replicate 12 2"

definition phrase0 :: jsstring where
  "phrase0 = js ''abandon ability able''"

definition vault_store :: MnemonicStore where
  "vault_store =
     snd (saveEncryptedMnemonic toy_browser salt0 iv0 phrase0 (js ''hunter2'') (create_store None))"

definition unlocked_store :: MnemonicStore where
  "unlocked_store =
     snd (startSession toy_browser salt0 iv0 (js ''4f1c-uuid'') 1000 (js ''hunter2'') vault_store)"

definition accept_all :: "jsstring \<Rightarrow> NetworkType \<Rightarrow> thrown + SparkWallet" where
  "accept_all secret network = Inr ready_wallet"

definition addrA :: jsstring where
  "addrA = js ''bc1qa''"

definition addrB :: jsstring where
  "addrB = js ''bc1qb''"

definition latest_AB :: "jsstring \<Rightarrow> thrown + jsstring option" where
  "latest_AB a =
     (if a = addrA then Inl (Error (js ''network''))
      else if a = addrB then Inr (Some (js ''tx1'')) else Inr None)"

definition latest_B :: "jsstring \<Rightarrow> thrown + jsstring option" where
  "latest_B a = (if a = addrB then Inr (Some (js ''tx1'')) else Inr None)"

definition at_once :: "jsstring \<Rightarrow> nat" where
  "at_once a = 0"

definition claim_ok :: "jsstring \<Rightarrow> thrown + unit" where
  "claim_ok txid = Inr ()"

definition latest_both :: "jsstring \<Rightarrow> thrown + jsstring option" where
  "latest_both a =
     (if a = addrA then Inr (Some (js ''tx0''))
      else if a = addrB then Inr (Some (js ''tx1'')) else Inr None)"

definition claim_only_tx1 :: "jsstring \<Rightarrow> thrown + unit" where
  "claim_only_tx1 txid = (if txid = js ''tx1'' then Inr () else Inl (Error (js ''rejected'')))"

definition watching :: "jsstring list \<Rightarrow> WalletState" where
  "watching addresses =
     initial_state\<lparr>wallet := Some ready_wallet, initializationStatus := Success,
                    isInitialized := True, onchainDepositAddresses := addresses,
                    btcBalance := Some 0\<rparr>"

definition with_balance :: "int \<Rightarrow> WalletState" where
  "with_balance b = initial_state\<lparr>wallet := Some ready_wallet, btcBalance := Some b\<rparr>"

section \<open>UTF-8 and UTF-16: decoding what was encoded\<close>

lemma mod_offset: "q < n \<Longrightarrow> (k * n + q) mod n = (q::nat)"
  by simp

lemma mod_lead2: "q < 32 \<Longrightarrow> (192 + q) mod 32 = (q::nat)" 
  using mod_offset[of q 32 6] by simp
lemma mod_cont: "q < 64 \<Longrightarrow> (128 + q) mod 64 = (q::nat)"
  using mod_offset[of q 64 2] by simp
lemma mod_lead3: "q < 16 \<Longrightarrow> (224 + q) mod 16 = (q::nat)" 
  using mod_offset[of q 16 14] by simp
lemma mod_lead4: "q < 8 \<Longrightarrow> (240 + q) mod 8 = (q::nat)" 
  using mod_offset[of q 8 30] by simp

lemma split3: "(cp::nat) = ((cp div 4096) * 64 + (cp div 64) mod 64) * 64 + cp mod 64"
proof -
  have "cp div 4096 = cp div 64 div 64" using div_mult2_eq[of cp 64 64] by simp
  then show ?thesis by simp
qed

lemma split4: "(cp::nat) = (((cp div 262144) * 64 + (cp div 4096) mod 64) * 64 + (cp div 64) mod 64) * 64 + cp mod 64"
proof -
  have 1: "cp div 4096 = cp div 64 div 64" using div_mult2_eq[of cp 64 64] by simp
  have 2: "cp div 262144 = cp div 4096 div 64" using div_mult2_eq[of cp 4096 64] by simp
  show ?thesis unfolding 2 unfolding 1 by simp
qed

lemma utf8_decode_lead:
  "utf8_decode utf8_initial (b # bs) = (case utf8_lead b of (out, st') \<Rightarrow> out @ utf8_decode st' bs)"
  by (simp add: utf8_initial_def)

lemma utf8_cont_more:
  "n \<noteq> 0 \<Longrightarrow> L \<le> b \<Longrightarrow> b \<le> U \<Longrightarrow> Suc k \<noteq> n \<Longrightarrow>
   utf8_decode \<lparr>code_point = c, bytes_seen = k, bytes_needed = n,
                lower_boundary = L, upper_boundary = U\<rparr> (b # bs)
   = utf8_decode \<lparr>code_point = c * 64 + b mod 64, bytes_seen = Suc k, bytes_needed = n,
                  lower_boundary = 0x80, upper_boundary = 0xBF\<rparr> bs"
  by simp

lemma utf8_cont_last:
  "n \<noteq> 0 \<Longrightarrow> L \<le> b \<Longrightarrow> b \<le> U \<Longrightarrow> Suc k = n \<Longrightarrow>
   utf8_decode \<lparr>code_point = c, bytes_seen = k, bytes_needed = n,
                lower_boundary = L, upper_boundary = U\<rparr> (b # bs)
   = (c * 64 + b mod 64) # utf8_decode utf8_initial bs"
  by auto

lemma utf8_decode_Nil: "utf8_decode utf8_initial [] = []"
  by (simp add: utf8_initial_def)

declare utf8_decode.simps [simp del]

lemma utf8_decode_1:
  assumes "cp < 0x80"
  shows "utf8_decode utf8_initial (utf8_encode_cp cp @ r) = cp # utf8_decode utf8_initial r"
proof -
  have "utf8_encode_cp cp = [cp]" using assms by (simp add: utf8_encode_cp_def)
  moreover have "utf8_lead cp = ([cp], utf8_initial)" using assms by (simp add: utf8_lead_def)
  ultimately show ?thesis by (simp add: utf8_decode_lead)
qed

lemma utf8_decode_2:
  assumes "0x80 \<le> cp" "cp < 0x800"
  shows "utf8_decode utf8_initial (utf8_encode_cp cp @ r) = cp # utf8_decode utf8_initial r"
proof -
  define q where "q = cp div 64"
  define m where "m = cp mod 64"
  have cp: "cp = q * 64 + m" and m: "m < 64" and q: "2 \<le> q" "q < 32"
    using assms by (auto simp: q_def m_def)
  have enc: "utf8_encode_cp cp = [192 + q, 128 + m]"
    using assms by (simp add: utf8_encode_cp_def q_def m_def)
  have 1: "utf8_lead (192 + q) = ([], \<lparr>code_point = q, bytes_seen = 0, bytes_needed = 1,
                lower_boundary = 0x80, upper_boundary = 0xBF\<rparr>)"
    using q by (simp add: utf8_lead_def mod_lead2 utf8_initial_def)
  have 2: "(128::nat) \<le> 128 + m" "128 + m \<le> 191" using m by simp_all
  show ?thesis unfolding enc
    by (simp only: append.simps utf8_decode_lead 1 prod.case utf8_cont_last[OF _ 2] mod_cont[OF m] cp)
qed

lemma utf8_decode_3:
  assumes "0x800 \<le> cp" "cp < 0x10000" "\<not> is_surrogate cp"
  shows "utf8_decode utf8_initial (utf8_encode_cp cp @ r) = cp # utf8_decode utf8_initial r"
proof -
  define a where "a = cp div 4096"
  define b where "b = (cp div 64) mod 64"
  define m where "m = cp mod 64"
  define L :: nat where "L = (if a = 0 then 0xA0 else 0x80)"
  define U :: nat where "U = (if a = 13 then 0x9F else 0xBF)"
  have cp: "cp = (a * 64 + b) * 64 + m" 
    unfolding a_def b_def m_def by (rule split3)
  have bnd: "m < 64" "b < 64" "a < 16"
    using assms by (auto simp: a_def b_def m_def)
  have lo: "a = 0 \<Longrightarrow> 32 \<le> b" using assms(1) cp bnd by simp
  have hi: "a = 13 \<Longrightarrow> b \<le> 31" using assms(2,3) cp bnd by (simp add: is_surrogate_def)
  have enc: "utf8_encode_cp cp = [224 + a, 128 + b, 128 + m]"
    using assms by (simp add: utf8_encode_cp_def a_def b_def m_def)
  have 1: "utf8_lead (224 + a) = ([], \<lparr>code_point = a, bytes_seen = 0, bytes_needed = 2,
                lower_boundary = L, upper_boundary = U\<rparr>)"
    using bnd by (simp add: utf8_lead_def mod_lead3 utf8_initial_def L_def U_def)
  have 2: "L \<le> 128 + b" "128 + b \<le> U" using bnd lo hi by (auto simp: L_def U_def)
  have 3: "(128::nat) \<le> 128 + m" "128 + m \<le> 191" using bnd by simp_all
  have "utf8_decode utf8_initial ([224 + a, 128 + b, 128 + m] @ r)
        = utf8_decode \<lparr>code_point = a, bytes_seen = 0, bytes_needed = 2,
                lower_boundary = L, upper_boundary = U\<rparr> ((128 + b) # (128 + m) # r)"
    by (simp only: append.simps utf8_decode_lead 1 prod.case)
  also have "\<dots> = utf8_decode \<lparr>code_point = a * 64 + b, bytes_seen = Suc 0, bytes_needed = 2,
                lower_boundary = 0x80, upper_boundary = 0xBF\<rparr> ((128 + m) # r)"
    using utf8_cont_more[OF _ 2, of 2 0 a "(128 + m) # r"] bnd by (simp add: mod_cont)
  also have "\<dots> = ((a * 64 + b) * 64 + m) # utf8_decode utf8_initial r"
    using utf8_cont_last[OF _ 3, of 2 "Suc 0" "a * 64 + b" r] bnd by (simp add: mod_cont)
  finally show ?thesis unfolding enc using cp by simp
qed

lemma utf8_decode_4:
  assumes "0x10000 \<le> cp" "cp < 0x110000"
  shows "utf8_decode utf8_initial (utf8_encode_cp cp @ r) = cp # utf8_decode utf8_initial r"
proof -
  define a where "a = cp div 262144"
  define b where "b = (cp div 4096) mod 64"
  define d where "d = (cp div 64) mod 64"
  define m where "m = cp mod 64"
  define L :: nat where "L = (if a = 0 then 0x90 else 0x80)"
  define U :: nat where "U = (if a = 4 then 0x8F else 0xBF)"
  have cp: "cp = ((a * 64 + b) * 64 + d) * 64 + m" 
    unfolding a_def b_def d_def m_def by (rule split4)
  have bnd: "m < 64" "b < 64" "d < 64" "a < 5"
    using assms by (auto simp: a_def b_def d_def m_def div_less_iff_less_mult)
  have lo: "a = 0 \<Longrightarrow> 16 \<le> b" using assms(1) cp bnd by simp
  have hi: "a = 4 \<Longrightarrow> b \<le> 15" using assms(2) cp bnd by simp
  have enc: "utf8_encode_cp cp = [240 + a, 128 + b, 128 + d, 128 + m]"
    using assms by (simp add: utf8_encode_cp_def a_def b_def d_def m_def)
  have 1: "utf8_lead (240 + a) = ([], \<lparr>code_point = a, bytes_seen = 0, bytes_needed = 3,
                lower_boundary = L, upper_boundary = U\<rparr>)"
    using bnd by (simp add: utf8_lead_def mod_lead4 utf8_initial_def L_def U_def)
  have 2: "L \<le> 128 + b" "128 + b \<le> U" using bnd lo hi by (auto simp: L_def U_def)
  have 3: "(128::nat) \<le> 128 + d" "128 + d \<le> 191" using bnd by simp_all
  have 4: "(128::nat) \<le> 128 + m" "128 + m \<le> 191" using bnd by simp_all
  have "utf8_decode utf8_initial ([240 + a, 128 + b, 128 + d, 128 + m] @ r)
        = utf8_decode \<lparr>code_point = a, bytes_seen = 0, bytes_needed = 3,
                lower_boundary = L, upper_boundary = U\<rparr> ((128 + b) # (128 + d) # (128 + m) # r)"
    by (simp only: append.simps utf8_decode_lead 1 prod.case)
  also have "\<dots> = utf8_decode \<lparr>code_point = a * 64 + b, bytes_seen = Suc 0, bytes_needed = 3,
                lower_boundary = 0x80, upper_boundary = 0xBF\<rparr> ((128 + d) # (128 + m) # r)"
    using utf8_cont_more[OF _ 2, of 3 0 a "(128 + d) # (128 + m) # r"] bnd by (simp add: mod_cont)
  also have "\<dots> = utf8_decode \<lparr>code_point = (a * 64 + b) * 64 + d, bytes_seen = Suc (Suc 0), bytes_needed = 3,
                lower_boundary = 0x80, upper_boundary = 0xBF\<rparr> ((128 + m) # r)"
    using utf8_cont_more[OF _ 3, of 3 "Suc 0" "a * 64 + b" "(128 + m) # r"] bnd by (simp add: mod_cont)
  also have "\<dots> = (((a * 64 + b) * 64 + d) * 64 + m) # utf8_decode utf8_initial r"
    using utf8_cont_last[OF _ 4, of 3 "Suc (Suc 0)" "(a * 64 + b) * 64 + d" r] bnd by (simp add: mod_cont)
  finally show ?thesis unfolding enc using cp by simp
qed

lemma utf8_decode_encode_cp:
  assumes "scalar_value cp"
  shows "utf8_decode utf8_initial (utf8_encode_cp cp @ r) = cp # utf8_decode utf8_initial r"
proof -
  consider "cp < 0x80" | "0x80 \<le> cp" "cp < 0x800" | "0x800 \<le> cp" "cp < 0x10000" | "0x10000 \<le> cp" 
    by linarith
  then show ?thesis using assms utf8_decode_1 utf8_decode_2 utf8_decode_3 utf8_decode_4
    by cases (auto simp: scalar_value_def)
qed

lemma utf8_decode_encode:
  "\<forall>cp\<in>set cps. scalar_value cp \<Longrightarrow> utf8_decode utf8_initial (concat (map utf8_encode_cp cps)) = cps"
  by (induction cps) (simp_all add: utf8_decode_encode_cp utf8_decode_Nil)

lemma utf8_encode_cp_bytes: "cp < 0x110000 \<Longrightarrow> b \<in> set (utf8_encode_cp cp) \<Longrightarrow> b < 256"
  by (auto simp: utf8_encode_cp_def div_less_iff_less_mult split: if_splits)

lemma to_scalars_valid:
  "\<forall>c\<in>set cs. c < 65536 \<Longrightarrow> cp \<in> set (to_scalars cs) \<Longrightarrow> scalar_value cp"
proof (induction cs arbitrary: cp rule: to_scalars.induct)
  case 1
  then show ?case by simp
next
  case (2 c)
  then show ?case by (auto simp: scalar_value_def is_surrogate_def split: if_splits)
next
  case (3 c d cs)
  show ?case
  proof (cases "is_high_surrogate c \<and> is_low_surrogate d")
    case True
    then have h: "c - 0xD800 \<le> 1023" and l: "d - 0xDC00 \<le> 1023"
      by (auto simp: is_high_surrogate_def is_low_surrogate_def)
    from h have "(c - 0xD800) * 0x400 \<le> 1023 * 0x400" by (rule mult_le_mono1)
    with l have "scalar_value (0x10000 + (c - 0xD800) * 0x400 + (d - 0xDC00))"
      by (simp add: scalar_value_def is_surrogate_def)
    with True 3 show ?thesis by auto
  next
    case False
    then have eq: "to_scalars (c # d # cs) = (if is_surrogate c then 0xFFFD else c) # to_scalars (d # cs)"
      by auto
    have hd: "scalar_value (if is_surrogate c then 0xFFFD else c)"
      using "3.prems"(1) by (simp add: scalar_value_def is_surrogate_def)
    have tl: "cp \<in> set (to_scalars (d # cs)) \<Longrightarrow> scalar_value cp"
      using "3.IH"(2)[OF False] "3.IH"(3)[OF False] "3.prems"(1)
      by (cases "is_surrogate c") simp_all
    from "3.prems"(2) hd tl show ?thesis unfolding eq by auto
  qed
qed

lemma from_scalar_pair:
  assumes "is_high_surrogate c" "is_low_surrogate d"
  shows "from_scalar (0x10000 + (c - 0xD800) * 0x400 + (d - 0xDC00)) = [c, d]"
proof -
  define h where "h = c - 0xD800"
  define l where "l = d - 0xDC00"
  have c: "c = 0xD800 + h" and d: "d = 0xDC00 + l" and l: "l < 0x400"
    using assms by (auto simp: h_def l_def is_high_surrogate_def is_low_surrogate_def)
  have "(h * 0x400 + l) div 0x400 = h" "(h * 0x400 + l) mod 0x400 = l" using l by simp_all
  then show ?thesis by (simp add: from_scalar_def c d)
qed

lemma surrogate_cases: "is_surrogate c \<longleftrightarrow> is_high_surrogate c \<or> is_low_surrogate c"
  by (auto simp: is_surrogate_def is_high_surrogate_def is_low_surrogate_def)

lemma from_scalars_to_scalars:
  "well_formed_units cs \<Longrightarrow> \<forall>c\<in>set cs. c < 65536 \<Longrightarrow> concat (map from_scalar (to_scalars cs)) = cs"
proof (induction cs rule: to_scalars.induct)
  case 1
  then show ?case by simp
next
  case (2 c)
  then show ?case by (simp add: from_scalar_def)
next
  case (3 c d cs)
  show ?case
  proof (cases "is_high_surrogate c")
    case True
    with 3 show ?thesis by (simp add: from_scalar_pair)
  next
    case False
    with 3 show ?thesis by (simp add: from_scalar_def surrogate_cases)
  qed
qed

lemma strip_bom_to_scalars:
  "take 1 cs \<noteq> [0xFEFF] \<Longrightarrow> strip_bom (to_scalars cs) = to_scalars cs"
  by (induction cs rule: to_scalars.induct)
     (auto simp: is_surrogate_def is_high_surrogate_def is_low_surrogate_def)

lemma unat_of_nat_byte: "b < 256 \<Longrightarrow> unat (of_nat b :: byte) = b"
  by (simp add: unat_of_nat)

lemma bytes_roundtrip: "\<forall>b\<in>set bs. b < 256 \<Longrightarrow> map unat (map of_nat bs :: byte list) = bs"
  by (induction bs) (simp_all add: unat_of_nat_byte)

lemma unat_unit_bound: "c \<in> set (map unat (s :: jsstring)) \<Longrightarrow> c < 65536"
proof -
  assume "c \<in> set (map unat s)"
  then obtain w :: "16 word" where "c = unat w" by auto
  then show ?thesis using unsigned_less[of w, where ?'a = nat] by simp
qed

lemma decode_encode:
  assumes "isWellFormed s" "take 1 s \<noteq> [0xFEFF]"
  shows "TextDecoder_decode (TextEncoder_encode s) = s"
proof -
  let ?cs = "map unat s"
  have units: "\<forall>c\<in>set ?cs. c < 65536" using unat_unit_bound by blast
  have sv: "\<forall>cp\<in>set (to_scalars ?cs). scalar_value cp"
    using to_scalars_valid[OF units] by blast
  have "\<forall>b\<in>set (concat (map utf8_encode_cp (to_scalars ?cs))). b < 256"
    using sv utf8_encode_cp_bytes by (auto simp: scalar_value_def)
  then have 1: "map unat (TextEncoder_encode s) = concat (map utf8_encode_cp (to_scalars ?cs))"
    unfolding TextEncoder_encode_def by (rule bytes_roundtrip)
  have 2: "utf8_decode utf8_initial (concat (map utf8_encode_cp (to_scalars ?cs))) = to_scalars ?cs"
    using sv by (rule utf8_decode_encode)
  have "take 1 ?cs \<noteq> [0xFEFF]"
  proof
    assume "take 1 ?cs = [0xFEFF]"
    then obtain w r where s: "s = w # r" and "unat w = 0xFEFF" by (cases s) auto
    then have "w = 0xFEFF" by (simp add: word_unat_eq_iff)
    with s assms(2) show False by simp
  qed
  then have 3: "strip_bom (to_scalars ?cs) = to_scalars ?cs" by (rule strip_bom_to_scalars)
  have 4: "concat (map from_scalar (to_scalars ?cs)) = ?cs"
    using assms(1) units unfolding isWellFormed_def by (rule from_scalars_to_scalars)
  show ?thesis unfolding TextDecoder_decode_def 1 2 3 4 by (simp add: map_idI)
qed

section \<open>Base64: atob after btoa\<close>

lemma unat_of_nat_unit: "n < 65536 \<Longrightarrow> unat (of_nat n :: 16 word) = n"
  by (simp add: unat_of_nat)

lemma b64_char_code:
  "i < 64 \<Longrightarrow> unat (b64_char i) =
     (if i < 26 then 65 + i else if i < 52 then 71 + i
      else if i < 62 then i - 4 else if i = 62 then 43 else 47)"
  unfolding b64_char_def by (rule unat_of_nat_unit) auto

lemma b64_index_char: "i < 64 \<Longrightarrow> b64_index (b64_char i) = Some i"
  unfolding b64_index_def Let_def b64_char_code by auto

lemma b64_char_not_pad: "i < 64 \<Longrightarrow> b64_char i \<noteq> 61"
proof
  assume "i < 64" "b64_char i = 61"
  then have "unat (b64_char i) = 61" by simp
  with \<open>i < 64\<close> show False by (simp add: b64_char_code split: if_splits)
qed

lemma b64_char_not_space: "i < 64 \<Longrightarrow> \<not> ascii_whitespace (b64_char i)"
proof
  assume i: "i < 64" and "ascii_whitespace (b64_char i)"
  then have "unat (b64_char i) \<in> {9, 10, 12, 13, 32}"
    by (auto simp: ascii_whitespace_def)
  with i show False by (auto simp: b64_char_code split: if_splits)
qed

lemma pad_not_space: "\<not> ascii_whitespace 61"
  by (simp add: ascii_whitespace_def)

lemma sextets_bound: "\<forall>b\<in>set bs. b < 256 \<Longrightarrow> x \<in> set (sextets bs) \<Longrightarrow> x < 64"
proof (induction bs arbitrary: x rule: sextets.induct)
  case (1 a b c r)
  have "a div 4 < 64" "(a mod 4) * 16 + b div 16 < 64" "(b mod 16) * 4 + c div 64 < 64" "c mod 64 < 64"
    using "1.prems"(1) by (auto simp: div_less_iff_less_mult)
  with 1 show ?case by auto
next
  case (2 a b)
  have "a div 4 < 64" "(a mod 4) * 16 + b div 16 < 64" "(b mod 16) * 4 < 64"
    using "2.prems"(1) by (auto simp: div_less_iff_less_mult)
  with 2 show ?case by auto
next
  case (3 a)
  have "a div 4 < 64" "(a mod 4) * 16 < 64"
    using "3.prems"(1) by (auto simp: div_less_iff_less_mult)
  with 3 show ?case by auto
next
  case 4
  then show ?case by simp
qed

lemma group1: "(a div 4) * 4 + ((a mod 4) * 16 + b div 16) div 16 = (a::nat)" if "b < 256"
  using that by (simp add: div_add1_eq)

lemma group2: "(((a mod 4) * 16 + b div 16) mod 16) * 16 + ((b mod 16) * 4 + c div 64) div 4 = (b::nat)"
  if "b < 256" "c < 256"
proof -
  have 1: "((a mod 4) * 16 + b div 16) mod 16 = b div 16" using that by (simp add: div_less_iff_less_mult)
  have 2: "((b mod 16) * 4 + c div 64) div 4 = b mod 16" using that by (simp add: div_less_iff_less_mult)
  show ?thesis unfolding 1 2 by simp
qed

lemma group3: "(((b mod 16) * 4 + c div 64) mod 4) * 64 + c mod 64 = (c::nat)" if "c < 256"
proof -
  have 1: "((b mod 16) * 4 + c div 64) mod 4 = c div 64" using that by (simp add: div_less_iff_less_mult)
  show ?thesis unfolding 1 by simp
qed

lemma group2_last: "(((a mod 4) * 16 + b div 16) mod 16) * 16 + ((b mod 16) * 4) div 4 = (b::nat)"
  if "b < 256"
  using group2[of b 0 a] that by simp

lemma group1_last: "(a div 4) * 4 + ((a mod 4) * 16) div 16 = (a::nat)"
  using group1[of 0 a] by simp

lemma octets_sextets: "\<forall>b\<in>set bs. b < 256 \<Longrightarrow> octets (sextets bs) = bs"
proof (induction bs rule: sextets.induct)
  case (1 a b c r)
  then have "a < 256" "b < 256" "c < 256" and r: "octets (sextets r) = r" by auto
  then show ?case by (simp add: group1 group2 group3)
next
  case (2 a b)
  then have "a < 256" "b < 256" by auto
  then show ?case by (simp add: group1 group2_last)
next
  case (3 a)
  then show ?case by (simp add: group1_last)
next
  case 4
  then show ?case by simp
qed

lemma div3_step: "(3 + n) div 3 = Suc (n div 3)" "(3 + n) mod 3 = n mod 3"
  by simp_all

lemma length_sextets:
  "length (sextets bs) = 4 * (length bs div 3) + (if length bs mod 3 = 0 then 0 else Suc (length bs mod 3))"
  by (induction bs rule: sextets.induct) (auto simp: div3_step)

lemma indices_chars: "\<forall>i\<in>set xs. i < 64 \<Longrightarrow> indices (map b64_char xs) = Some xs"
  by (induction xs) (simp_all add: b64_index_char)

lemma filter_chars:
  "\<forall>i\<in>set xs. i < 64 \<Longrightarrow> filter (\<lambda>c. \<not> ascii_whitespace c) (map b64_char xs @ replicate p 61)
     = map b64_char xs @ replicate p 61"
  by (rule filter_True) (auto simp: b64_char_not_space pad_not_space)

lemma rev_chars_head:
  "\<forall>i\<in>set xs. i < 64 \<Longrightarrow> rev (map b64_char xs) = x # r \<Longrightarrow> x \<noteq> 61"
proof -
  assume a: "\<forall>i\<in>set xs. i < 64" and "rev (map b64_char xs) = x # r"
  then have "x \<in> set (map b64_char xs)" by (metis list.set_intros(1) set_rev)
  with a show ?thesis by (auto simp: b64_char_not_pad)
qed

lemma strip_padding_chars:
  assumes "\<forall>i\<in>set xs. i < 64" "p \<le> 2" "length xs + p \<ge> 4 \<or> p = 0"
    "(length xs + p) mod 4 = 0"
  shows "strip_padding (map b64_char xs @ replicate p 61) = map b64_char xs"
proof -
  let ?cs = "map b64_char xs"
  consider "p = 0" | "p = 1" | "p = 2" using assms(2) by linarith
  then show ?thesis
  proof cases
    case 1
    show ?thesis
    proof (cases "rev ?cs")
      case Nil
      then show ?thesis using 1 by (simp add: strip_padding_def)
    next
      case (Cons x r)
      then have "x \<noteq> 61" using rev_chars_head[OF assms(1)] by blast
      then show ?thesis using 1 Cons by (simp add: strip_padding_def split: list.splits)
    qed
  next
    case 2
    then have "xs \<noteq> []" using assms(3) by auto
    then obtain y r where yr: "rev ?cs = y # r" by (cases "rev ?cs") auto
    then have "y \<noteq> 61" using rev_chars_head[OF assms(1)] by blast
    moreover have cs: "?cs = rev (y # r)" using yr by (metis rev_rev_ident)
    moreover have "length xs = Suc (length r)"
      using arg_cong[OF cs, of length] by simp
    ultimately show ?thesis using 2 yr assms(4) by (simp add: strip_padding_def)
  next
    case 3
    have "replicate 2 (61 :: 16 word) = [61, 61]" by (simp add: numeral_2_eq_2)
    then show ?thesis using 3 assms(4) by (simp add: strip_padding_def)
  qed
qed

lemma atob_btoa:
  assumes "\<forall>c\<in>set s. unat c \<le> 0xFF"
  shows "btoa s = Inr (map b64_char (sextets (map unat s)) @ replicate ((3 - length s mod 3) mod 3) 61)"
    and "atob (map b64_char (sextets (map unat s)) @ replicate ((3 - length s mod 3) mod 3) 61) = Inr s"
proof -
  let ?bs = "map unat s"
  let ?xs = "sextets ?bs"
  let ?p = "(3 - length s mod 3) mod 3"
  show "btoa s = Inr (map b64_char ?xs @ replicate ?p 61)"
    using assms by (auto simp: btoa_def list_ex_iff)
  have bytes: "\<forall>b\<in>set ?bs. b < 256" using assms by auto
  have six: "\<forall>i\<in>set ?xs. i < 64" using sextets_bound[OF bytes] by blast
  have len: "length ?xs = 4 * (length s div 3) + (if length s mod 3 = 0 then 0 else Suc (length s mod 3))"
    using length_sextets[of ?bs] by simp
  have m3: "length s mod 3 = 0 \<or> length s mod 3 = 1 \<or> length s mod 3 = 2" by linarith
  have p: "?p \<le> 2" by simp
  have tot: "(length ?xs + ?p) mod 4 = 0" using m3 unfolding len by auto
  have big: "length ?xs + ?p \<ge> 4 \<or> ?p = 0" using m3 unfolding len by auto
  have one: "length ?xs mod 4 \<noteq> 1" using m3 unfolding len by auto
  have 1: "filter (\<lambda>c. \<not> ascii_whitespace c) (map b64_char ?xs @ replicate ?p 61)
             = map b64_char ?xs @ replicate ?p 61"
    using six by (rule filter_chars)
  have 2: "strip_padding (map b64_char ?xs @ replicate ?p 61) = map b64_char ?xs"
    using six p big tot by (rule strip_padding_chars)
  have 3: "indices (map b64_char ?xs) = Some ?xs" using six by (rule indices_chars)
  have 4: "octets ?xs = ?bs" using bytes by (rule octets_sextets)
  show "atob (map b64_char ?xs @ replicate ?p 61) = Inr s"
    unfolding atob_def 1 2 Let_def using one by (simp add: 3 4 map_idI)
qed

lemma unat_ucast_byte: "unat (ucast (b :: byte) :: 16 word) = unat b"
proof -
  have "unat b < 2 ^ 8" using unsigned_less[of b, where ?'a = nat] by simp
  then have "unat b < 2 ^ 16" by simp
  then show ?thesis by (simp add: unsigned_ucast_eq take_bit_nat_eq_self)
qed

lemma ucast_ucast_byte: "(ucast (ucast (b :: byte) :: 16 word) :: byte) = b"
  by (simp add: ucast_up_ucast is_up)

lemma char_codes_bytes: "c \<in> set (char_codes bs) \<Longrightarrow> unat c \<le> 0xFF"
proof -
  assume "c \<in> set (char_codes bs)"
  then obtain b :: byte where "c = ucast b" by (auto simp: char_codes_def)
  moreover have "unat b < 256" using unsigned_less[of b, where ?'a = nat] by simp
  ultimately show ?thesis by (simp add: unat_ucast_byte)
qed

lemma Uint8Array_from_char_codes: "Uint8Array_from (char_codes bs) = bs"
  by (simp add: Uint8Array_from_def char_codes_def ucast_ucast_byte map_idI)

section \<open>Sealing and opening\<close>

lemma encryptMnemonic_Inr:
  assumes "length (envelope c salt iv S P) \<le> argument_limit c"
  shows "\<exists>env. encryptMnemonic c salt iv S P = Inr env
           \<and> atob env = Inr (char_codes (envelope c salt iv S P))
           \<and> (salt \<noteq> [] \<longrightarrow> env \<noteq> [])"
proof -
  let ?s = "char_codes (envelope c salt iv S P)"
  have b: "\<forall>x\<in>set ?s. unat x \<le> 0xFF" using char_codes_bytes by blast
  have "salt \<noteq> [] \<Longrightarrow> sextets (map unat ?s) \<noteq> []"
    by (cases "map unat ?s" rule: sextets.cases) (auto simp: envelope_def char_codes_def)
  moreover have "String_fromCharCode (argument_limit c) (envelope c salt iv S P) = Inr ?s"
    using assms by (simp add: String_fromCharCode_def)
  ultimately show ?thesis
    using atob_btoa[OF b] by (simp add: encryptMnemonic_def envelope_def Let_def)
qed

lemma encryptMnemonic_RangeError:
  assumes "argument_limit c < length (envelope c salt iv S P)"
  shows "encryptMnemonic c salt iv S P = Inl RangeError"
  using assms by (simp add: encryptMnemonic_def envelope_def String_fromCharCode_def Let_def)

lemma open_sealed_eq:
  assumes "length salt = 16" "length iv = 12"
    and "length (envelope c salt iv S P) \<le> argument_limit c"
  shows "open_sealed c salt iv S P P' =
     (case decrypt c (deriveKey c (TextEncoder_encode P') salt) iv
             (encrypt c (deriveKey c (TextEncoder_encode P) salt) iv (TextEncoder_encode S)) of
        Some d \<Rightarrow> Inr (TextDecoder_decode d)
      | None \<Rightarrow> Inl (Error (js ''Invalid password'')))"
proof -
  obtain env where e: "encryptMnemonic c salt iv S P = Inr env"
    and a: "atob env = Inr (char_codes (envelope c salt iv S P))"
    using encryptMnemonic_Inr[OF assms(3)] by blast
  show ?thesis
    unfolding open_sealed_def e using assms(1,2)
    by (simp add: decryptMnemonic_def a Uint8Array_from_char_codes envelope_def Let_def)
qed

lemma open_sealed_same:
  assumes "decrypts_own c" "length salt = 16" "length iv = 12"
    and "length (envelope c salt iv S P) \<le> argument_limit c"
  shows "open_sealed c salt iv S P P = Inr (TextDecoder_decode (TextEncoder_encode S))"
  using assms(1) by (simp add: open_sealed_eq[OF assms(2,3,4)] decrypts_own_def)

lemma open_sealed_other:
  assumes "rejects_other_keys c" "length salt = 16" "length iv = 12"
    and "length (envelope c salt iv S P) \<le> argument_limit c"
    and "deriveKey c (TextEncoder_encode P') salt \<noteq> deriveKey c (TextEncoder_encode P) salt"
  shows "open_sealed c salt iv S P P' = Inl (Error (js ''Invalid password''))"
  using assms(1,5) by (simp add: open_sealed_eq[OF assms(2,3,4)] rejects_other_keys_def)

lemma toy_decrypts_own: "decrypts_own toy_browser"
  by (simp add: decrypts_own_def toy_browser_def comp_def)

lemma toy_rejects_other_keys: "rejects_other_keys toy_browser"
  by (simp add: rejects_other_keys_def toy_browser_def)

lemma length_salt0: "length salt0 = 16" by (simp add: salt0_def)
lemma length_iv0: "length iv0 = 12" by (simp add: iv0_def)


lemma isWellFormed_units: "\<forall>c\<in>set cs. c < 0xD800 \<Longrightarrow> well_formed_units cs"
  by (induction cs rule: well_formed_units.induct)
     (auto simp: is_surrogate_def is_high_surrogate_def)

lemma unat_js: "c \<in> set (map unat (js s)) \<Longrightarrow> c < 256"
proof -
  assume "c \<in> set (map unat (js s))"
  then obtain ch :: char where c: "c = unat (of_nat (of_char ch) :: 16 word)"
    by (auto simp: js_def)
  have "(of_char ch :: nat) \<in> range of_char" by (rule rangeI)
  then have lt: "(of_char ch :: nat) < 256" unfolding range_nat_of_char by simp
  have "unat (of_nat (of_char ch) :: 16 word) \<le> of_char ch"
    unfolding unat_of_nat by (rule mod_less_eq_dividend)
  then show ?thesis unfolding c using lt by (rule le_less_trans)
qed

lemma isWellFormed_js: "isWellFormed (js s)"
  unfolding isWellFormed_def
proof (rule isWellFormed_units, rule ballI)
  fix c assume "c \<in> set (map unat (js s))"
  then have "c < 256" by (rule unat_js)
  then show "c < 0xD800" by simp
qed

lemma js_no_bom: "take 1 (js s) \<noteq> [0xFEFF]"
proof
  assume a: "take 1 (js s) = [0xFEFF]"
  then obtain w r where s: "js s = w # r" and w: "w = 0xFEFF" by (cases "js s") auto
  then have "unat w \<in> set (map unat (js s))" by simp
  then have "unat w < 256" by (rule unat_js)
  with w show False by simp
qed

lemma open_sealed_js:
  assumes "decrypts_own c" "length salt = 16" "length iv = 12"
    and "length (envelope c salt iv (js s) P) \<le> argument_limit c"
  shows "open_sealed c salt iv (js s) P P = Inr (js s)"
  using open_sealed_same[OF assms] decode_encode[OF isWellFormed_js js_no_bom] by simp

lemma ascii_to_scalars: "\<forall>c\<in>set cs. c < 0x80 \<Longrightarrow> to_scalars cs = cs"
  by (induction cs rule: to_scalars.induct)
     (auto simp: is_surrogate_def is_high_surrogate_def)

lemma ascii_utf8: "\<forall>c\<in>set cs. c < 0x80 \<Longrightarrow> concat (map utf8_encode_cp cs) = cs"
  by (induction cs) (simp_all add: utf8_encode_cp_def)

lemma length_encode_ascii:
  "\<forall>c\<in>set s. unat c < 0x80 \<Longrightarrow> length (TextEncoder_encode s) = length s"
proof -
  assume "\<forall>c\<in>set s. unat c < 0x80"
  then have a: "\<forall>c\<in>set (map unat s). c < 0x80" by simp
  show ?thesis
    unfolding TextEncoder_encode_def ascii_to_scalars[OF a] ascii_utf8[OF a] by simp
qed

lemma length_toy_envelope:
  "length (envelope toy_browser salt0 iv0 S P) = 29 + length (TextEncoder_encode S)"
  by (simp add: envelope_def toy_browser_def salt0_def iv0_def)

lemma phrase0_ascii: "\<forall>c\<in>set phrase0. unat c < 0x80"
  by (simp add: phrase0_def js_def)

lemma phrase0_fits:
  "length (envelope toy_browser salt0 iv0 phrase0 P) \<le> argument_limit toy_browser"
  unfolding length_toy_envelope length_encode_ascii[OF phrase0_ascii]
  by (simp add: phrase0_def js_def toy_browser_def)

lemma vault_store_state:
  "\<exists>env. encryptMnemonic toy_browser salt0 iv0 phrase0 (js ''hunter2'') = Inr env \<and> env \<noteq> [] \<and>
     vault_store = \<lparr>state = initial_mnemonic_state\<lparr>encryptedMnemonic := Some env\<rparr>,
                    mnemonic_storage = Some (initial_mnemonic_state\<lparr>encryptedMnemonic := Some env\<rparr>)\<rparr>"
proof -
  obtain env where e: "encryptMnemonic toy_browser salt0 iv0 phrase0 (js ''hunter2'') = Inr env"
    and n: "salt0 \<noteq> [] \<longrightarrow> env \<noteq> []"
    using encryptMnemonic_Inr[OF phrase0_fits] by blast
  have "env \<noteq> []" using n by (simp add: salt0_def)
  then show ?thesis using e
    by (simp add: vault_store_def saveEncryptedMnemonic_def persist_set_def create_store_def Let_def)
qed

lemma decrypt_vault:
  assumes "encryptMnemonic toy_browser salt0 iv0 phrase0 (js ''hunter2'') = Inr env"
  shows "decryptMnemonic toy_browser env (js ''hunter2'') = Inr phrase0"
  using open_sealed_js[OF toy_decrypts_own length_salt0 length_iv0,
      of "''abandon ability able''" "js ''hunter2''"] phrase0_fits[of "js ''hunter2''"] assms
  by (simp add: open_sealed_def phrase0_def)

lemma toy_keys_differ:
  "deriveKey toy_browser (TextEncoder_encode (js ''Hunter2'')) salt0
     \<noteq> deriveKey toy_browser (TextEncoder_encode (js ''hunter2'')) salt0"
  by (simp add: toy_browser_def TextEncoder_encode_def js_def is_surrogate_def
      is_high_surrogate_def utf8_encode_cp_def)

lemma decrypt_vault_wrong:
  assumes "encryptMnemonic toy_browser salt0 iv0 phrase0 (js ''hunter2'') = Inr env"
  shows "decryptMnemonic toy_browser env (js ''Hunter2'') = Inl (Error (js ''Invalid password''))"
  using open_sealed_other[OF toy_rejects_other_keys length_salt0 length_iv0 phrase0_fits
      toy_keys_differ] assms
  by (simp add: open_sealed_def)

lemma unlocked_store_state:
  "\<exists>env sealed. encryptMnemonic toy_browser salt0 iv0 phrase0 (js ''hunter2'') = Inr env \<and> env \<noteq> [] \<and>
     encryptMnemonic toy_browser salt0 iv0 phrase0 (js ''4f1c-uuid'') = Inr sealed \<and> sealed \<noteq> [] \<and>
     state unlocked_store =
       \<lparr>encryptedMnemonic = Some env, sessionEncryptedMnemonic = Some sealed,
        session = \<lparr>sessionKey = Some (js ''4f1c-uuid''), expiresAt = Some 1801000\<rparr>\<rparr> \<and>
     mnemonic_storage unlocked_store = Some (state unlocked_store)"
proof -
  obtain env where e: "encryptMnemonic toy_browser salt0 iv0 phrase0 (js ''hunter2'') = Inr env"
    and n: "env \<noteq> []"
    and v: "vault_store = \<lparr>state = initial_mnemonic_state\<lparr>encryptedMnemonic := Some env\<rparr>,
                    mnemonic_storage = Some (initial_mnemonic_state\<lparr>encryptedMnemonic := Some env\<rparr>)\<rparr>"
    using vault_store_state by blast
  obtain sealed where s: "encryptMnemonic toy_browser salt0 iv0 phrase0 (js ''4f1c-uuid'') = Inr sealed"
    and sn: "salt0 \<noteq> [] \<longrightarrow> sealed \<noteq> []"
    using encryptMnemonic_Inr[OF phrase0_fits] by blast
  have sn': "sealed \<noteq> []" using sn by (simp add: salt0_def)
  have d: "getDecryptedMnemonic toy_browser (js ''hunter2'') (state vault_store) = Inr phrase0"
    using n decrypt_vault[OF e] by (simp add: getDecryptedMnemonic_def v)
  show ?thesis using e n s sn'
    by (simp add: unlocked_store_def startSession_def d persist_set_def Let_def)
       (simp add: v initial_mnemonic_state_def)
qed

lemma session_of_unlocked_store:
  "now < 1801000 \<Longrightarrow> getSessionMnemonic toy_browser now (state unlocked_store) = Inr (Some phrase0)"
proof -
  assume now: "now < 1801000"
  obtain env sealed where
    s: "encryptMnemonic toy_browser salt0 iv0 phrase0 (js ''4f1c-uuid'') = Inr sealed" "sealed \<noteq> []"
    and st: "state unlocked_store =
       \<lparr>encryptedMnemonic = Some env, sessionEncryptedMnemonic = Some sealed,
        session = \<lparr>sessionKey = Some (js ''4f1c-uuid''), expiresAt = Some 1801000\<rparr>\<rparr>"
    using unlocked_store_state by blast
  have "decryptMnemonic toy_browser sealed (js ''4f1c-uuid'') = Inr phrase0"
    using open_sealed_js[OF toy_decrypts_own length_salt0 length_iv0,
        of "''abandon ability able''" "js ''4f1c-uuid''"] phrase0_fits[of "js ''4f1c-uuid''"] s
    by (simp add: open_sealed_def phrase0_def)
  then show ?thesis using now s(2) by (simp add: getSessionMnemonic_def st js_def)
qed

text \<open>
  Claim C1, amended. For every password and every secret that is a well-formed string (no
  lone surrogate), does not begin with U+FEFF and whose envelope (salt, IV, ciphertext
  with tag) has no more bytes than the engine accepts as arguments of one call,
  opening under the password what was sealed under it gives the secret back:
  \<open>open(seal(S, P), P) = S\<close>. The salt has 16 bytes and the IV 12, as
  \<open>getRandomValues\<close> fills them, and AES-GCM decrypts what it encrypted.
\<close>

theorem seal_open_roundtrip:
  assumes "decrypts_own c" and "length salt = 16" and "length iv = 12"
    and "isWellFormed secret" and "take 1 secret \<noteq> [0xFEFF]"
    and "length (envelope c salt iv secret password) \<le> argument_limit c"
  shows "open_sealed c salt iv secret password password = Inr secret"
  using open_sealed_same[OF assms(1-3,6)] decode_encode[OF assms(4,5)] by simp

theorem seal_open_roundtrip_witness:
  "decrypts_own toy_browser \<and> length salt0 = 16 \<and> length iv0 = 12 \<and> isWellFormed phrase0
   \<and> take 1 phrase0 \<noteq> [0xFEFF]
   \<and> length (envelope toy_browser salt0 iv0 phrase0 (js ''hunter2'')) \<le> argument_limit toy_browser
   \<and> open_sealed toy_browser salt0 iv0 phrase0 (js ''hunter2'') (js ''hunter2'') = Inr phrase0"
proof -
  have w: "isWellFormed phrase0" and b: "take 1 phrase0 \<noteq> [0xFEFF]"
    unfolding phrase0_def by (rule isWellFormed_js, rule js_no_bom)
  show ?thesis
    using seal_open_roundtrip[OF toy_decrypts_own length_salt0 length_iv0 w b phrase0_fits,
        of "js ''hunter2''"]
      toy_decrypts_own length_salt0 length_iv0 w b phrase0_fits[of "js ''hunter2''"] by simp
qed

text \<open>
  Claim C1 as stated, for every string, fails: \<open>TextDecoder\<close> drops a leading byte
  order mark, so the secret U+FEFF comes back as the empty string; \<open>TextEncoder\<close>
  writes a lone surrogate as U+FFFD, so the secret U+D800 comes back as U+FFFD; and a
  secret of 65536 letters \<open>a\<close> is not sealed at all by an engine that accepts 65535
  arguments.
\<close>

theorem seal_open_roundtrip_counterexample:
  "open_sealed toy_browser salt0 iv0 [0xFEFF] (js ''hunter2'') (js ''hunter2'') = Inr []
   \<and> open_sealed toy_browser salt0 iv0 [0xD800] (js ''hunter2'') (js ''hunter2'') = Inr [0xFFFD]
   \<and> open_sealed toy_browser salt0 iv0 (replicate 65536 0x61) (js ''hunter2'') (js ''hunter2'')
       = Inl RangeError"
proof -
  have e1: "TextEncoder_encode [0xFEFF] = [0xEF, 0xBB, 0xBF]"
    by (simp add: TextEncoder_encode_def is_surrogate_def utf8_encode_cp_def)
  have e2: "TextEncoder_encode [0xD800] = [0xEF, 0xBF, 0xBD]"
    by (simp add: TextEncoder_encode_def is_surrogate_def utf8_encode_cp_def)
  have 1: "TextDecoder_decode (TextEncoder_encode [0xFEFF]) = []"
    unfolding e1
    by (simp add: TextDecoder_decode_def utf8_decode.simps utf8_lead_def utf8_initial_def)
  have 2: "TextDecoder_decode (TextEncoder_encode [0xD800]) = [0xFFFD]"
    unfolding e2
    by (simp add: TextDecoder_decode_def utf8_decode.simps utf8_lead_def utf8_initial_def
        from_scalar_def)
  have f1: "length (envelope toy_browser salt0 iv0 [0xFEFF] (js ''hunter2'')) \<le> argument_limit toy_browser"
    unfolding length_toy_envelope e1 by (simp add: toy_browser_def)
  have f2: "length (envelope toy_browser salt0 iv0 [0xD800] (js ''hunter2'')) \<le> argument_limit toy_browser"
    unfolding length_toy_envelope e2 by (simp add: toy_browser_def)
  have "\<forall>c\<in>set (replicate 65536 (0x61 :: 16 word)). unat c < 0x80" by simp
  then have "length (TextEncoder_encode (replicate 65536 0x61)) = 65536"
    using length_encode_ascii by fastforce
  then have "argument_limit toy_browser
               < length (envelope toy_browser salt0 iv0 (replicate 65536 0x61) (js ''hunter2''))"
    unfolding length_toy_envelope by (simp add: toy_browser_def)
  then have 3: "encryptMnemonic toy_browser salt0 iv0 (replicate 65536 0x61) (js ''hunter2'')
                  = Inl RangeError"
    by (rule encryptMnemonic_RangeError)
  show ?thesis
    using open_sealed_same[OF toy_decrypts_own length_salt0 length_iv0 f1]
      open_sealed_same[OF toy_decrypts_own length_salt0 length_iv0 f2] 1 2 3
    by (simp add: open_sealed_def)
qed





section \<open>The session\<close>

text \<open>
  Claim C6. When \<open>startSession\<close> fails because the persisted vault does not decrypt
  under the password, the store is exactly what it was: session key, expiry and
  session envelope are untouched, in memory and in storage.
\<close>

theorem startSession_failure_leaves_store:
  assumes "getDecryptedMnemonic c password (state st) = Inl e"
  shows "startSession c salt iv randomUUID' now password st = (Inl e, st)"
  using assms by (simp add: startSession_def)

theorem startSession_failure_leaves_store_witness:
  "getDecryptedMnemonic toy_browser (js ''Hunter2'') (state unlocked_store)
     = Inl (Error (js ''Invalid password''))
   \<and> startSession toy_browser salt0 iv0 (js ''9e2b-uuid'') 5000 (js ''Hunter2'') unlocked_store
     = (Inl (Error (js ''Invalid password'')), unlocked_store)
   \<and> sessionKey (session (state unlocked_store)) = Some (js ''4f1c-uuid'')"
proof -
  obtain env sealed where
    e: "encryptMnemonic toy_browser salt0 iv0 phrase0 (js ''hunter2'') = Inr env" "env \<noteq> []"
    and st: "state unlocked_store =
       \<lparr>encryptedMnemonic = Some env, sessionEncryptedMnemonic = Some sealed,
        session = \<lparr>sessionKey = Some (js ''4f1c-uuid''), expiresAt = Some 1801000\<rparr>\<rparr>"
    using unlocked_store_state by blast
  have g: "getDecryptedMnemonic toy_browser (js ''Hunter2'') (state unlocked_store)
     = Inl (Error (js ''Invalid password''))"
    using e(2) decrypt_vault_wrong[OF e(1)] by (simp add: getDecryptedMnemonic_def st)
  show ?thesis
    using startSession_failure_leaves_store[OF g, of salt0 iv0 "js ''9e2b-uuid''" 5000] g
    by (simp add: st)
qed

text \<open>
  Claim C2, amended. The session is persisted with the rest of the store: after a
  successful \<open>startSession\<close>, a restart restores the same session key, expiry and
  session envelope, and \<open>getSessionMnemonic\<close> answers after the restart what it
  answered before it, at every time: the secret, with no password, until the expiry.
\<close>

theorem session_restored_by_restart:
  assumes "fst (startSession c salt iv randomUUID' now password st) = Inr ()"
  shows "state (restart (snd (startSession c salt iv randomUUID' now password st)))
           = state (snd (startSession c salt iv randomUUID' now password st))
       \<and> getSessionMnemonic c t (state (restart (snd (startSession c salt iv randomUUID' now password st))))
           = getSessionMnemonic c t (state (snd (startSession c salt iv randomUUID' now password st)))"
  using assms
  by (auto simp: startSession_def restart_def create_store_def persist_set_def Let_def
      split: sum.splits)

theorem session_restored_by_restart_witness:
  "fst (startSession toy_browser salt0 iv0 (js ''4f1c-uuid'') 1000 (js ''hunter2'') vault_store) = Inr ()
   \<and> state (restart unlocked_store) = state unlocked_store
   \<and> getSessionMnemonic toy_browser 2000 (state (restart unlocked_store))
       = getSessionMnemonic toy_browser 2000 (state unlocked_store)"
proof -
  obtain env where e: "encryptMnemonic toy_browser salt0 iv0 phrase0 (js ''hunter2'') = Inr env"
    and n: "env \<noteq> []"
    and v: "vault_store = \<lparr>state = initial_mnemonic_state\<lparr>encryptedMnemonic := Some env\<rparr>,
                    mnemonic_storage = Some (initial_mnemonic_state\<lparr>encryptedMnemonic := Some env\<rparr>)\<rparr>"
    using vault_store_state by blast
  obtain sealed where s: "encryptMnemonic toy_browser salt0 iv0 phrase0 (js ''4f1c-uuid'') = Inr sealed"
    using encryptMnemonic_Inr[OF phrase0_fits] by blast
  have d: "getDecryptedMnemonic toy_browser (js ''hunter2'') (state vault_store) = Inr phrase0"
    using n decrypt_vault[OF e] by (simp add: getDecryptedMnemonic_def v)
  have ok: "fst (startSession toy_browser salt0 iv0 (js ''4f1c-uuid'') 1000 (js ''hunter2'') vault_store) = Inr ()"
    by (simp add: startSession_def d s)
  show ?thesis
    using session_restored_by_restart[OF ok, of 2000] ok
    by (simp add: unlocked_store_def)
qed

text \<open>
  Claim C2 as stated fails: a session started at time 1000 is still there after a
  restart, and at time 2000 the phrase is obtained from it with no password.
\<close>

theorem session_survives_restart_counterexample:
  "getSessionMnemonic toy_browser 2000 (state (restart unlocked_store)) = Inr (Some phrase0)"
proof -
  have "mnemonic_storage unlocked_store = Some (state unlocked_store)"
    using unlocked_store_state by blast
  then have "state (restart unlocked_store) = state unlocked_store"
    by (simp add: restart_def create_store_def)
  then show ?thesis using session_of_unlocked_store[of 2000] by simp
qed

section \<open>Initialisation\<close>

lemma opened_with_initWallet:
  "opened_with (snd (snd (initWallet initialize x (s, ss)))) = [x]"
  by (simp add: initWallet_def Let_def split: sum.splits)

lemma opened_with_initWalletFromSeed:
  "opened_with (snd (snd (initWalletFromSeed initialize x (s, ss)))) = [x]"
  by (simp add: initWalletFromSeed_def Let_def split: sum.splits)

lemma loadStoredWallet_opened_with:
  assumes "initializationStatus s = Idle \<or> initializationStatus s = Needs_password"
  shows "opened_with (snd (snd (snd (loadStoredWallet c now initialize m (s, ss))))) =
           (case if_truthy (spark_wallet_mnemonic ss) of
              Some sessionMnemonic \<Rightarrow> [sessionMnemonic]
            | None \<Rightarrow>
                (case if_truthy (spark_wallet_seed ss) of
                   Some storedSeed \<Rightarrow> [storedSeed]
                 | None \<Rightarrow>
                     (case getSessionMnemonic c now m of
                        Inl e \<Rightarrow> []
                      | Inr fromStore \<Rightarrow>
                          (case if_truthy fromStore of Some x \<Rightarrow> [x] | None \<Rightarrow> []))))"
proof -
  have run: "\<not> (initializationStatus s \<noteq> Idle \<and> initializationStatus s \<noteq> Needs_password)"
    using assms by blast
  show ?thesis
    unfolding loadStoredWallet_def prod.case if_not_P[OF run] Let_def
    by (auto simp: opened_with_initWallet opened_with_initWalletFromSeed
        split: option.splits sum.splits)
qed

lemma loadStoredWallet_no_secret:
  assumes "initializationStatus s = Idle \<or> initializationStatus s = Needs_password"
    and "if_truthy (spark_wallet_mnemonic ss) = None" and "if_truthy (spark_wallet_seed ss) = None"
    and "getSessionMnemonic c now m = Inr fromStore" and "if_truthy fromStore = None"
  shows "fst (loadStoredWallet c now initialize m (s, ss)) =
            (if truthy (encryptedMnemonic m) then Needs_password else No_wallet)"
proof -
  have run: "\<not> (initializationStatus s \<noteq> Idle \<and> initializationStatus s \<noteq> Needs_password)"
    using assms(1) by blast
  show ?thesis
    unfolding loadStoredWallet_def prod.case if_not_P[OF run] Let_def
    using assms(2-5)
    by (auto simp: setInitializationStatus_def truthy_def if_truthy_def split: option.splits)
qed

text \<open>
  Claim C4, amended. From \<open>idle\<close> or \<open>needs_password\<close>, \<open>loadStoredWallet\<close> opens
  the wallet with the first secret found in this order: the mnemonic cached in
  \<open>sessionStorage\<close>, the seed cached in \<open>sessionStorage\<close>, the secret of a still valid
  session of the mnemonic store. When none is found (and \<open>getSessionMnemonic\<close> did
  not throw) it opens nothing, and the status is \<open>needs_password\<close> exactly when a
  non-empty encrypted mnemonic is persisted, and \<open>no_wallet\<close> otherwise.
\<close>

theorem loadStoredWallet_source_order:
  assumes "initializationStatus s = Idle \<or> initializationStatus s = Needs_password"
  shows "opened_with (snd (snd (snd (loadStoredWallet c now initialize m (s, ss))))) =
           (case if_truthy (spark_wallet_mnemonic ss) of
              Some sessionMnemonic \<Rightarrow> [sessionMnemonic]
            | None \<Rightarrow>
                (case if_truthy (spark_wallet_seed ss) of
                   Some storedSeed \<Rightarrow> [storedSeed]
                 | None \<Rightarrow>
                     (case getSessionMnemonic c now m of
                        Inl e \<Rightarrow> []
                      | Inr fromStore \<Rightarrow>
                          (case if_truthy fromStore of Some x \<Rightarrow> [x] | None \<Rightarrow> []))))
       \<and> (if_truthy (spark_wallet_mnemonic ss) = None \<and> if_truthy (spark_wallet_seed ss) = None
            \<and> getSessionMnemonic c now m = Inr fromStore \<and> if_truthy fromStore = None \<longrightarrow>
          fst (loadStoredWallet c now initialize m (s, ss)) =
            (if truthy (encryptedMnemonic m) then Needs_password else No_wallet))"
  using loadStoredWallet_opened_with[OF assms] loadStoredWallet_no_secret[OF assms] by blast

theorem loadStoredWallet_source_order_witness:
  "opened_with (snd (snd (snd (loadStoredWallet toy_browser 2000 accept_all (state unlocked_store)
      (initial_state, \<lparr>spark_wallet_mnemonic = None, spark_wallet_seed = None\<rparr>))))) = [phrase0]
   \<and> fst (loadStoredWallet toy_browser 2000 accept_all (state vault_store)
      (initial_state, \<lparr>spark_wallet_mnemonic = None, spark_wallet_seed = None\<rparr>)) = Needs_password
   \<and> fst (loadStoredWallet toy_browser 2000 accept_all initial_mnemonic_state
      (initial_state, \<lparr>spark_wallet_mnemonic = None, spark_wallet_seed = None\<rparr>)) = No_wallet"
proof -
  have idle: "initializationStatus initial_state = Idle \<or> initializationStatus initial_state = Needs_password"
    by (simp add: initial_state_def)
  have p: "phrase0 \<noteq> []" by (simp add: phrase0_def js_def)
  obtain env where n: "env \<noteq> []"
    and v: "vault_store = \<lparr>state = initial_mnemonic_state\<lparr>encryptedMnemonic := Some env\<rparr>,
                    mnemonic_storage = Some (initial_mnemonic_state\<lparr>encryptedMnemonic := Some env\<rparr>)\<rparr>"
    using vault_store_state by blast
  have g1: "getSessionMnemonic toy_browser 2000 (state vault_store) = Inr None"
    by (simp add: getSessionMnemonic_def v initial_mnemonic_state_def)
  have g2: "getSessionMnemonic toy_browser 2000 initial_mnemonic_state = Inr None"
    by (simp add: getSessionMnemonic_def initial_mnemonic_state_def)
  have e1: "truthy (encryptedMnemonic (state vault_store))"
    using n by (simp add: v truthy_def)
  have e2: "\<not> truthy (encryptedMnemonic initial_mnemonic_state)"
    by (simp add: initial_mnemonic_state_def truthy_def)
  show ?thesis
    using loadStoredWallet_source_order[OF idle, of toy_browser 2000 accept_all "state unlocked_store"
        "\<lparr>spark_wallet_mnemonic = None, spark_wallet_seed = None\<rparr>" None]
      loadStoredWallet_source_order[OF idle, of toy_browser 2000 accept_all "state vault_store"
        "\<lparr>spark_wallet_mnemonic = None, spark_wallet_seed = None\<rparr>" None]
      loadStoredWallet_source_order[OF idle, of toy_browser 2000 accept_all initial_mnemonic_state
        "\<lparr>spark_wallet_mnemonic = None, spark_wallet_seed = None\<rparr>" None]
      session_of_unlocked_store[of 2000] p g1 g2 e1 e2
    by (simp add: if_truthy_def)
qed

text \<open>
  Claim C4 as stated, the session secret before the cached seed, fails: with a valid
  session and a cached seed, the wallet is opened with the seed.
\<close>

theorem seed_before_session_counterexample:
  "getSessionMnemonic toy_browser 2000 (state unlocked_store) = Inr (Some phrase0)
   \<and> phrase0 \<noteq> js ''5eed''
   \<and> opened_with (snd (snd (snd (loadStoredWallet toy_browser 2000 accept_all (state unlocked_store)
        (initial_state, \<lparr>spark_wallet_mnemonic = None, spark_wallet_seed = Some (js ''5eed'')\<rparr>)))))
       = [js ''5eed'']"
proof -
  have 1: "getSessionMnemonic toy_browser 2000 (state unlocked_store) = Inr (Some phrase0)"
    by (rule session_of_unlocked_store) simp
  have 2: "phrase0 \<noteq> js ''5eed''" by (simp add: phrase0_def js_def)
  have 3: "if_truthy (Some (js ''5eed'')) = Some (js ''5eed'')" by (simp add: if_truthy_def js_def)
  have idle: "initializationStatus initial_state = Idle \<or> initializationStatus initial_state = Needs_password"
    by (simp add: initial_state_def)
  have "opened_with (snd (snd (snd (loadStoredWallet toy_browser 2000 accept_all (state unlocked_store)
        (initial_state, \<lparr>spark_wallet_mnemonic = None, spark_wallet_seed = Some (js ''5eed'')\<rparr>)))))
       = [js ''5eed'']"
    unfolding loadStoredWallet_opened_with[OF idle] by (simp add: if_truthy_def js_def)
  with 1 2 show ?thesis by simp
qed

section \<open>The claim loop\<close>

lemma notifications_append: "notifications (xs @ ys) = notifications xs @ notifications ys"
  by (induction xs rule: notifications.induct) auto

lemma addrs_neq: "addrA \<noteq> addrB" "addrB \<noteq> addrA"
  by (simp_all add: addrA_def addrB_def js_def)

lemma sort_key_two:
  "sort_key f [a, b] = (if f a \<le> f b then [a, b] else [b, a])"
  by simp

text \<open>
  Claim C8. The claim asks that a failing address, a failing query of the matured
  deposit included, leaves the rest of the cycle alone. With \<open>addrA\<close> and \<open>addrB\<close>
  watched, the query for \<open>addrA\<close> rejected and the deposit of \<open>addrB\<close> claimed, the
  cycle rejects and writes nothing, in whatever order the two queries settle:
  \<open>addrB\<close> is claimed and still watched.
\<close>

theorem query_rejection_aborts_cycle:
  "l1Deposit latest_AB claim_ok settles_at (watching [addrA, addrB])
     = (Inl (Error (js ''network'')), watching [addrA, addrB],
        [Call_getLatestDepositTxId addrA, Call_getLatestDepositTxId addrB,
         Call_claimDeposit (js ''tx1'')])"
proof -
  have A: "l1Deposit_address latest_AB claim_ok addrA = (Query_rejected (Error (js ''network'')), [])"
    by (simp add: l1Deposit_address_def latest_AB_def)
  have B: "l1Deposit_address latest_AB claim_ok addrB = (Claimed, [Call_claimDeposit (js ''tx1'')])"
    by (simp add: l1Deposit_address_def latest_AB_def claim_ok_def addrs_neq js_def)
  have w: "wallet (watching [addrA, addrB]) \<noteq> None"
    "onchainDepositAddresses (watching [addrA, addrB]) = [addrA, addrB]"
    by (simp_all add: watching_def initial_state_def)
  show ?thesis
    unfolding l1Deposit_def Let_def w(2) sort_key_two
    using w(1) by (cases "settles_at addrA \<le> settles_at addrB") (simp_all add: A B)
qed

text \<open>
  Any rejected query discards the cycle in this way. When no query is rejected the
  cycle does what the claim says: a rejected claim is caught, the claimed addresses
  are removed and all others stay.
\<close>

lemma no_rejection:
  "first_rejection (map (\<lambda>a. fst (l1Deposit_address g c a)) as) = None
     \<longleftrightarrow> (\<forall>a\<in>set as. \<forall>e. g a \<noteq> Inl e)"
  by (induction as) (auto simp: l1Deposit_address_def split: sum.splits option.splits if_splits)

lemma no_rejection_settled:
  "first_rejection (map (\<lambda>a. fst (l1Deposit_address g c a)) (sort_key t as)) = None
     \<longleftrightarrow> (\<forall>a\<in>set as. \<forall>e. g a \<noteq> Inl e)"
  unfolding no_rejection by simp

lemma claim_rejections_isolated:
  assumes "wallet s \<noteq> None" "\<forall>a\<in>set (onchainDepositAddresses s). \<forall>e. g a \<noteq> Inl e"
  shows "onchainDepositAddresses (fst (snd (l1Deposit g c t s)))
           = filter (\<lambda>a. fst (l1Deposit_address g c a) \<noteq> Claimed) (onchainDepositAddresses s)
         \<and> fst (l1Deposit g c t s)
           = Inr (Some (\<exists>a\<in>set (onchainDepositAddresses s). fst (l1Deposit_address g c a) = Claimed))"
proof -
  let ?as = "onchainDepositAddresses s"
  let ?P = "\<lambda>a. fst (l1Deposit_address g c a) \<noteq> Claimed"
  have nr: "first_rejection (map (\<lambda>a. fst (l1Deposit_address g c a)) (sort_key t ?as)) = None"
    using assms(2) by (simp only: no_rejection_settled)
  have ex: "list_ex (\<lambda>a. fst (l1Deposit_address g c a) = Claimed) ?as \<longleftrightarrow> (\<exists>a\<in>set ?as. \<not> ?P a)"
    by (auto simp: list_ex_iff)
  show ?thesis
  proof (cases "\<exists>a\<in>set ?as. \<not> ?P a")
    case True
    then show ?thesis using assms(1) nr ex
      by (auto simp: l1Deposit_def Let_def setOnchainDepositAddresses_def)
  next
    case False
    then have "filter ?P ?as = ?as" by (simp add: filter_id_conv)
    then show ?thesis using assms(1) nr ex False
      by (auto simp: l1Deposit_def Let_def setOnchainDepositAddresses_def)
  qed
qed

lemma query_rejection_discards_cycle:
  assumes "wallet s \<noteq> None" "\<exists>a\<in>set (onchainDepositAddresses s). \<exists>e. g a = Inl e"
  shows "fst (snd (l1Deposit g c t s)) = s \<and> (\<exists>e. fst (l1Deposit g c t s) = Inl e)"
proof -
  have "first_rejection (map (\<lambda>a. fst (l1Deposit_address g c a))
          (sort_key t (onchainDepositAddresses s))) \<noteq> None"
    using assms(2) unfolding no_rejection_settled by blast
  then obtain e where "first_rejection (map (\<lambda>a. fst (l1Deposit_address g c a))
          (sort_key t (onchainDepositAddresses s))) = Some e"
    by blast
  then show ?thesis using assms(1) by (auto simp: l1Deposit_def Let_def)
qed

lemma claim_rejection_is_isolated:
  "l1Deposit latest_both claim_only_tx1 at_once (watching [addrA, addrB])
     = (Inr (Some True), watching [addrA],
        [Call_getLatestDepositTxId addrA, Call_getLatestDepositTxId addrB,
         Call_claimDeposit (js ''tx0''), Call_claimDeposit (js ''tx1'')])"
  by (simp add: l1Deposit_def l1Deposit_address_def latest_both_def claim_only_tx1_def addrs_neq
      at_once_def Let_def watching_def initial_state_def setOnchainDepositAddresses_def)
     (simp add: js_def)

lemma address_effects:
  "Call_getBalance \<notin> set (snd (l1Deposit_address g c a))
   \<and> notifications (snd (l1Deposit_address g c a)) = []"
  by (simp add: l1Deposit_address_def split: sum.splits option.splits)

lemma claims_effects:
  "Call_getBalance \<notin> set (concat (map (\<lambda>a. snd (l1Deposit_address g c a)) as))
   \<and> notifications (concat (map (\<lambda>a. snd (l1Deposit_address g c a)) as)) = []"
  by (induction as) (simp_all add: address_effects notifications_append)

lemma queries_effects:
  "Call_getBalance \<notin> set (map Call_getLatestDepositTxId as)
   \<and> notifications (map Call_getLatestDepositTxId as) = []"
  by (induction as) auto

lemma cycle_effects:
  "snd (snd (l1Deposit g c t s))
     = (if wallet s = None then []
        else map Call_getLatestDepositTxId (onchainDepositAddresses s)
             @ concat (map (\<lambda>a. snd (l1Deposit_address g c a))
                 (sort_key t (onchainDepositAddresses s))))"
  by (simp add: l1Deposit_def Let_def split: option.splits)

lemma cycle_is_silent:
  "Call_getBalance \<notin> set (snd (snd (l1Deposit g c t s)))
   \<and> notifications (snd (snd (l1Deposit g c t s))) = []
   \<and> btcBalance (fst (snd (l1Deposit g c t s))) = btcBalance s"
proof -
  have "btcBalance (fst (snd (l1Deposit g c t s))) = btcBalance s"
    by (simp add: l1Deposit_def Let_def setOnchainDepositAddresses_def split: option.splits)
  then show ?thesis
    using claims_effects[of g c "sort_key t (onchainDepositAddresses s)"]
      queries_effects[of "onchainDepositAddresses s"]
    by (simp add: cycle_effects notifications_append)
qed

lemma claim_is_made:
  assumes "wallet s \<noteq> None" "a \<in> set (onchainDepositAddresses s)"
    and "g a = Inr (Some tx)" "tx \<noteq> []"
  shows "Call_claimDeposit tx \<in> set (snd (snd (l1Deposit g c t s)))"
proof -
  have "Call_claimDeposit tx \<in> set (snd (l1Deposit_address g c a))"
    using assms(3,4) by (simp add: l1Deposit_address_def split: sum.splits)
  moreover have "a \<in> set (sort_key t (onchainDepositAddresses s))"
    using assms(2) by simp
  ultimately show ?thesis
    using assms(1) unfolding cycle_effects by auto
qed

text \<open>
  Claim C5, amended. After a successful deposit claim the claim loop does not signal the
  reconciler. A cycle in which the matured deposit of a watched address is claimed
  makes that claim, makes no call of \<open>getBalance\<close> (the call with which every
  reconciliation run starts), shows no notification and leaves the stored balance as
  it was. When no query of the cycle is rejected, the cycle removes the claimed
  address from the watched set and returns \<open>true\<close>.
\<close>

theorem claim_loop_does_not_refresh:
  assumes "wallet s \<noteq> None" and "a \<in> set (onchainDepositAddresses s)"
    and "getLatest a = Inr (Some tx)" and "tx \<noteq> []" and "claim tx = Inr ()"
  shows "Call_claimDeposit tx \<in> set (snd (snd (l1Deposit getLatest claim t s)))
       \<and> Call_getBalance \<notin> set (snd (snd (l1Deposit getLatest claim t s)))
       \<and> notifications (snd (snd (l1Deposit getLatest claim t s))) = []
       \<and> btcBalance (fst (snd (l1Deposit getLatest claim t s))) = btcBalance s
       \<and> ((\<forall>b\<in>set (onchainDepositAddresses s). \<forall>e. getLatest b \<noteq> Inl e) \<longrightarrow>
            fst (l1Deposit getLatest claim t s) = Inr (Some True)
            \<and> a \<notin> set (onchainDepositAddresses (fst (snd (l1Deposit getLatest claim t s)))))
       \<and> (wallet rendered \<noteq> None \<longrightarrow>
            snd (handleBalanceUpdate_begin True rendered h s') = [Call_getBalance])"
proof -
  have claimed: "fst (l1Deposit_address getLatest claim a) = Claimed"
    using assms(3-5) by (simp add: l1Deposit_address_def)
  have removed: "(\<forall>b\<in>set (onchainDepositAddresses s). \<forall>e. getLatest b \<noteq> Inl e) \<Longrightarrow>
            fst (l1Deposit getLatest claim t s) = Inr (Some True)
            \<and> a \<notin> set (onchainDepositAddresses (fst (snd (l1Deposit getLatest claim t s))))"
    using claim_rejections_isolated[OF assms(1), of getLatest claim t] claimed assms(2)
    by auto
  show ?thesis
    using claim_is_made[where g = getLatest and c = claim and t = t, OF assms(1-4)]
      cycle_is_silent[of getLatest claim t s] removed
    by (simp add: handleBalanceUpdate_begin_def)
qed

theorem claim_loop_does_not_refresh_witness:
  "wallet (watching [addrB]) \<noteq> None \<and> addrB \<in> set (onchainDepositAddresses (watching [addrB]))
   \<and> latest_B addrB = Inr (Some (js ''tx1'')) \<and> js ''tx1'' \<noteq> [] \<and> claim_ok (js ''tx1'') = Inr ()
   \<and> Call_claimDeposit (js ''tx1'') \<in> set (snd (snd (l1Deposit latest_B claim_ok at_once (watching [addrB]))))
   \<and> Call_getBalance \<notin> set (snd (snd (l1Deposit latest_B claim_ok at_once (watching [addrB]))))
   \<and> btcBalance (fst (snd (l1Deposit latest_B claim_ok at_once (watching [addrB])))) = Some 0
   \<and> fst (l1Deposit latest_B claim_ok at_once (watching [addrB])) = Inr (Some True)
   \<and> addrB \<notin> set (onchainDepositAddresses
        (fst (snd (l1Deposit latest_B claim_ok at_once (watching [addrB])))))
   \<and> snd (handleBalanceUpdate_begin True (watching [addrB]) None (watching [addrB]))
        = [Call_getBalance]"
proof -
  have 1: "wallet (watching [addrB]) \<noteq> None"
    and 2: "addrB \<in> set (onchainDepositAddresses (watching [addrB]))"
    and b: "btcBalance (watching [addrB]) = Some 0"
    and o: "onchainDepositAddresses (watching [addrB]) = [addrB]"
    by (simp_all add: watching_def initial_state_def)
  have 3: "latest_B addrB = Inr (Some (js ''tx1''))" by (simp add: latest_B_def)
  have 4: "js ''tx1'' \<noteq> []" by (simp add: js_def)
  have 5: "claim_ok (js ''tx1'') = Inr ()" by (simp add: claim_ok_def)
  have 6: "\<forall>b\<in>set (onchainDepositAddresses (watching [addrB])). \<forall>e. latest_B b \<noteq> Inl e"
    by (simp add: latest_B_def)
  show ?thesis
    using claim_loop_does_not_refresh[where getLatest = latest_B and claim = claim_ok
        and t = at_once and rendered = "watching [addrB]" and h = None
        and s' = "watching [addrB]", OF 1 2 3 4 5]
      1 2 3 4 5 6 b
    by simp
qed

text \<open>
  Claim C5 as stated fails: a cycle that claims the deposit of \<open>addrB\<close> removes the
  address and returns \<open>true\<close>, and that is all it does.
\<close>

theorem claim_without_refresh_counterexample:
  "l1Deposit latest_B claim_ok at_once (watching [addrB])
     = (Inr (Some True), watching [],
        [Call_getLatestDepositTxId addrB, Call_claimDeposit (js ''tx1'')])"
  by (simp add: l1Deposit_def l1Deposit_address_def latest_B_def claim_ok_def at_once_def
      Let_def watching_def initial_state_def setOnchainDepositAddresses_def)
     (simp add: js_def)

section \<open>The reconciler\<close>

lemma Number_exact: "\<bar>b\<bar> < 2 ^ 53 \<Longrightarrow> Number b = b"
proof -
  assume "\<bar>b\<bar> < 2 ^ 53"
  then have "nat \<bar>b\<bar> < 2 ^ 53" by (simp add: nat_less_iff)
  then show ?thesis unfolding Number_def Let_def by (rule if_P)
qed

lemma newBtcBalance_exact:
  "\<bar>b\<bar> < 2 ^ 53 \<Longrightarrow> newBtcBalance (Some \<lparr>balance = Some b, resp_tokenBalances = t\<rparr>) = b"
  by (simp add: newBtcBalance_def Number_exact)

lemma begin_reads_store:
  "wallet rendered \<noteq> None \<Longrightarrow>
   handleBalanceUpdate_begin True rendered h s
     = (Some \<lparr>previousBtcBalance = btcBalance s, balanceFromEvent = h\<rparr>, [Call_getBalance])"
  by (simp add: handleBalanceUpdate_begin_def)

lemma resume_notifications:
  "notifications (snd (handleBalanceUpdate_resume r True rendered (Inr fetched) s))
     = (case previousBtcBalance r of
          None \<Rightarrow> []
        | Some p \<Rightarrow> if newBtcBalance fetched > p then [Number (newBtcBalance fetched - p)] else [])"
  by (auto simp: handleBalanceUpdate_resume_def Let_def split: option.splits)

lemma resume_store:
  "btcBalance (fst (handleBalanceUpdate_resume r True rendered (Inr fetched) s))
     = Some (newBtcBalance fetched)"
  by (simp add: handleBalanceUpdate_resume_def setBalance_def Let_def)

lemma uninterrupted_run:
  "wallet rendered \<noteq> None \<Longrightarrow>
   handleBalanceUpdate True True rendered h fetched s
     = (fst (handleBalanceUpdate_resume
               \<lparr>previousBtcBalance = btcBalance s, balanceFromEvent = h\<rparr> True rendered fetched s),
        Call_getBalance #
        snd (handleBalanceUpdate_resume
               \<lparr>previousBtcBalance = btcBalance s, balanceFromEvent = h\<rparr> True rendered fetched s))"
  by (simp add: handleBalanceUpdate_def begin_reads_store split: prod.splits)

text \<open>
  Claim C7. Every run that completes (the component still mounted, \<open>getBalance\<close>
  answering) and that read a previous balance \<open>p\<close> when it was triggered emits
  exactly one "Funds Received" notification, carrying \<open>n - p\<close>, when the fetched
  balance \<open>n\<close> is greater than \<open>p\<close>, and none when \<open>n \<le> p\<close>, whatever the store holds
  by then and whatever balance the event reported. The difference is the one
  JavaScript computes, which is exact below \<open>2^53\<close>. The previous balance of a run is
  the one the store holds when the run is triggered, so the same holds of a run that
  nothing interleaves with, for the balance stored before it.
\<close>

theorem balance_increase_notifies_once:
  assumes "previousBtcBalance r = Some p"
  shows "notifications (snd (handleBalanceUpdate_resume r True rendered (Inr fetched) s'))
           = (if newBtcBalance fetched > p then [Number (newBtcBalance fetched - p)] else [])
       \<and> (\<bar>newBtcBalance fetched - p\<bar> < 2 ^ 53 \<longrightarrow>
            Number (newBtcBalance fetched - p) = newBtcBalance fetched - p)
       \<and> (wallet rendered \<noteq> None \<and> btcBalance s = Some p \<longrightarrow>
            fst (handleBalanceUpdate_begin True rendered hint s)
              = Some \<lparr>previousBtcBalance = Some p, balanceFromEvent = hint\<rparr>
            \<and> notifications (snd (handleBalanceUpdate True True rendered hint (Inr fetched) s))
              = (if newBtcBalance fetched > p then [Number (newBtcBalance fetched - p)] else []))"
  using assms
  by (simp add: resume_notifications uninterrupted_run begin_reads_store Number_exact)

theorem balance_increase_notifies_once_witness:
  "notifications (snd (handleBalanceUpdate_resume
       \<lparr>previousBtcBalance = Some 1000, balanceFromEvent = None\<rparr> True (with_balance 1000)
       (fetched_balance 1500) (with_balance 1500))) = [500]
   \<and> notifications (snd (handleBalanceUpdate True True (with_balance 1000) None
       (fetched_balance 1500) (with_balance 1000))) = [500]
   \<and> notifications (snd (handleBalanceUpdate True True (with_balance 1500) None
       (fetched_balance 1000) (with_balance 1500))) = []
   \<and> notifications (snd (handleBalanceUpdate True True (with_balance 0) (Some 50000)
       (fetched_balance 50000) (with_balance 0))) = [50000]"
proof -
  have n: "newBtcBalance (Some \<lparr>balance = Some 1500, resp_tokenBalances = None\<rparr>) = 1500"
    "newBtcBalance (Some \<lparr>balance = Some 1000, resp_tokenBalances = None\<rparr>) = 1000"
    "newBtcBalance (Some \<lparr>balance = Some 50000, resp_tokenBalances = None\<rparr>) = 50000"
    by (simp_all add: newBtcBalance_exact)
  show ?thesis
    using balance_increase_notifies_once
            [of "\<lparr>previousBtcBalance = Some 1000, balanceFromEvent = None\<rparr>" 1000
                "with_balance 1000" "Some \<lparr>balance = Some 1500, resp_tokenBalances = None\<rparr>"
                "with_balance 1500" "with_balance 1000" None]
          balance_increase_notifies_once
            [of "\<lparr>previousBtcBalance = Some 1500, balanceFromEvent = None\<rparr>" 1500
                "with_balance 1500" "Some \<lparr>balance = Some 1000, resp_tokenBalances = None\<rparr>"
                "with_balance 1500" "with_balance 1500" None]
          balance_increase_notifies_once
            [of "\<lparr>previousBtcBalance = Some 0, balanceFromEvent = None\<rparr>" 0
                "with_balance 0" "Some \<lparr>balance = Some 50000, resp_tokenBalances = None\<rparr>"
                "with_balance 0" "with_balance 0" "Some 50000"]
          n Number_exact[of 500] Number_exact[of 50000]
    by (simp add: with_balance_def fetched_balance_def)
qed

text \<open>
  Claim C10. On the first run of a session the stored balance is still undefined: the
  run stores the fetched balance and emits no "Funds Received" notification, however
  large the fetched balance is.
\<close>

theorem first_fetch_stores_without_notification:
  assumes "wallet rendered \<noteq> None" and "btcBalance s = None"
  shows "btcBalance (fst (handleBalanceUpdate True True rendered hint (Inr fetched) s))
           = Some (newBtcBalance fetched)
         \<and> notifications (snd (handleBalanceUpdate True True rendered hint (Inr fetched) s)) = []"
  using assms
  by (simp add: uninterrupted_run resume_notifications resume_store)

theorem first_fetch_stores_without_notification_witness:
  "btcBalance (fst (handleBalanceUpdate True True (initial_state\<lparr>wallet := Some ready_wallet\<rparr>)
       None (fetched_balance 50000) (initial_state\<lparr>wallet := Some ready_wallet\<rparr>))) = Some 50000
   \<and> notifications (snd (handleBalanceUpdate True True (initial_state\<lparr>wallet := Some ready_wallet\<rparr>)
       None (fetched_balance 50000) (initial_state\<lparr>wallet := Some ready_wallet\<rparr>))) = []"
  using first_fetch_stores_without_notification
          [of "initial_state\<lparr>wallet := Some ready_wallet\<rparr>"
              "initial_state\<lparr>wallet := Some ready_wallet\<rparr>" None
              "Some \<lparr>balance = Some 50000, resp_tokenBalances = None\<rparr>"]
        newBtcBalance_exact[of 50000 None]
  by (simp add: initial_state_def fetched_balance_def)

lemma trigger_step:
  "wallet (render rc) \<noteq> None \<Longrightarrow>
   run_step (Trigger h) rc
     = rc\<lparr>pending := pending rc @ [\<lparr>previousBtcBalance = btcBalance (store rc), balanceFromEvent = h\<rparr>],
          log := log rc @ [Call_getBalance]\<rparr>"
  by (simp add: begin_reads_store)

lemma triggers_pending:
  "wallet (render rc) \<noteq> None \<Longrightarrow>
   length (pending (run_schedule (replicate k (Trigger h)) rc)) = length (pending rc) + k"
proof (induction k arbitrary: rc)
  case 0
  then show ?case by simp
next
  case (Suc k)
  have "wallet (render (run_step (Trigger h) rc)) \<noteq> None"
    using Suc.prems by (simp add: trigger_step del: run_step.simps)
  from Suc.IH[OF this] show ?case
    using Suc.prems by (simp add: trigger_step del: run_step.simps)
qed

lemma complete_step_notifications:
  "i < length (pending rc) \<Longrightarrow>
   notifications (log (run_step (Complete i (Inr fetched)) rc))
     = notifications (log rc) @
       (case previousBtcBalance (pending rc ! i) of
          None \<Rightarrow> []
        | Some p \<Rightarrow> if newBtcBalance fetched > p then [Number (newBtcBalance fetched - p)] else [])"
proof -
  assume i: "i < length (pending rc)"
  obtain s' es where r: "handleBalanceUpdate_resume (pending rc ! i) True (render rc) (Inr fetched) (store rc) = (s', es)"
    by (cases "handleBalanceUpdate_resume (pending rc ! i) True (render rc) (Inr fetched) (store rc)")
  have "notifications es
          = (case previousBtcBalance (pending rc ! i) of
               None \<Rightarrow> []
             | Some p \<Rightarrow> if newBtcBalance fetched > p then [Number (newBtcBalance fetched - p)] else [])"
    using resume_notifications[of "pending rc ! i" "render rc" fetched "store rc"] r by simp
  then show ?thesis using i r by (simp add: notifications_append)
qed

lemma two_interleaved_runs:
  assumes "wallet (render rc) \<noteq> None" "pending rc = []" "btcBalance (store rc) = Some p"
  shows "notifications (log (run_schedule
            [Trigger h1, Trigger h2, Complete 0 (Inr f1), Complete 0 (Inr f2)] rc))
         = notifications (log rc)
           @ (if newBtcBalance f1 > p then [Number (newBtcBalance f1 - p)] else [])
           @ (if newBtcBalance f2 > p then [Number (newBtcBalance f2 - p)] else [])"
proof -
  let ?run1 = "\<lparr>previousBtcBalance = Some p, balanceFromEvent = h1\<rparr>"
  let ?run2 = "\<lparr>previousBtcBalance = Some p, balanceFromEvent = h2\<rparr>"
  let ?rc2 = "rc\<lparr>pending := [?run1, ?run2], log := log rc @ [Call_getBalance, Call_getBalance]\<rparr>"
  let ?rc3 = "run_step (Complete 0 (Inr f1)) ?rc2"
  have t: "run_schedule [Trigger h1, Trigger h2] rc = ?rc2"
    using assms by (simp add: trigger_step del: run_step.simps)
  have p3: "pending ?rc3 = [?run2]"
    by (simp split: prod.splits)
  have n3: "notifications (log ?rc3)
              = notifications (log rc) @ (if newBtcBalance f1 > p then [Number (newBtcBalance f1 - p)] else [])"
    using complete_step_notifications[of 0 ?rc2 f1] by (simp add: notifications_append)
  have n4: "notifications (log (run_step (Complete 0 (Inr f2)) ?rc3))
              = notifications (log ?rc3) @ (if newBtcBalance f2 > p then [Number (newBtcBalance f2 - p)] else [])"
    using complete_step_notifications[of 0 ?rc3 f2] p3 by simp
  have "run_schedule [Trigger h1, Trigger h2, Complete 0 (Inr f1), Complete 0 (Inr f2)] rc
          = run_step (Complete 0 (Inr f2)) ?rc3"
    using t by simp
  then show ?thesis using n3 n4 by simp
qed

text \<open>
  Claim C9, amended. Runs are not serialized. Every trigger starts its own run at once and
  none is coalesced: a trigger puts one more run in flight, holding the balance stored
  at that moment, so \<open>k\<close> triggers in a row put \<open>k\<close> more runs in flight. A run that
  completes compares the balance it fetched with the balance it holds, whatever the
  store holds by then: of two runs triggered over a stored \<open>p\<close>, each notifies its own
  increase over \<open>p\<close>, the second too, although the first has replaced the snapshot.
  A run triggered with nothing in flight and completed before the next trigger is the
  uninterrupted \<open>handleBalanceUpdate\<close>.
\<close>

theorem runs_are_not_serialized:
  assumes "wallet (render rc) \<noteq> None"
  shows "pending (run_step (Trigger h) rc)
           = pending rc @ [\<lparr>previousBtcBalance = btcBalance (store rc), balanceFromEvent = h\<rparr>]
       \<and> length (pending (run_schedule (replicate k (Trigger h)) rc)) = length (pending rc) + k
       \<and> (i < length (pending rc) \<longrightarrow>
            notifications (log (run_step (Complete i (Inr fetched)) rc))
              = notifications (log rc) @
                (case previousBtcBalance (pending rc ! i) of
                   None \<Rightarrow> []
                 | Some q \<Rightarrow> if newBtcBalance fetched > q then [Number (newBtcBalance fetched - q)] else []))
       \<and> (pending rc = [] \<and> btcBalance (store rc) = Some p \<longrightarrow>
            notifications (log (run_schedule
               [Trigger h1, Trigger h2, Complete 0 (Inr f1), Complete 0 (Inr f2)] rc))
              = notifications (log rc)
                @ (if newBtcBalance f1 > p then [Number (newBtcBalance f1 - p)] else [])
                @ (if newBtcBalance f2 > p then [Number (newBtcBalance f2 - p)] else []))
       \<and> (pending rc = [] \<longrightarrow>
            run_schedule [Trigger h, Complete 0 answer] rc
              = rc\<lparr>store := fst (handleBalanceUpdate True True (render rc) h answer (store rc)),
                   log := log rc @ snd (handleBalanceUpdate True True (render rc) h answer (store rc))\<rparr>)"
proof (intro conjI impI)
  show "pending (run_step (Trigger h) rc)
           = pending rc @ [\<lparr>previousBtcBalance = btcBalance (store rc), balanceFromEvent = h\<rparr>]"
    using assms by (simp add: trigger_step del: run_step.simps)
next
  show "length (pending (run_schedule (replicate k (Trigger h)) rc)) = length (pending rc) + k"
    using assms by (rule triggers_pending)
next
  assume "i < length (pending rc)"
  then show "notifications (log (run_step (Complete i (Inr fetched)) rc))
              = notifications (log rc) @
                (case previousBtcBalance (pending rc ! i) of
                   None \<Rightarrow> []
                 | Some q \<Rightarrow> if newBtcBalance fetched > q then [Number (newBtcBalance fetched - q)] else [])"
    by (rule complete_step_notifications)
next
  assume "pending rc = [] \<and> btcBalance (store rc) = Some p"
  then show "notifications (log (run_schedule
               [Trigger h1, Trigger h2, Complete 0 (Inr f1), Complete 0 (Inr f2)] rc))
              = notifications (log rc)
                @ (if newBtcBalance f1 > p then [Number (newBtcBalance f1 - p)] else [])
                @ (if newBtcBalance f2 > p then [Number (newBtcBalance f2 - p)] else [])"
    using two_interleaved_runs[OF assms] by blast
next
  assume "pending rc = []"
  then show "run_schedule [Trigger h, Complete 0 answer] rc
              = rc\<lparr>store := fst (handleBalanceUpdate True True (render rc) h answer (store rc)),
                   log := log rc @ snd (handleBalanceUpdate True True (render rc) h answer (store rc))\<rparr>"
    using assms by (simp add: trigger_step uninterrupted_run del: run_step.simps(1) split: prod.splits)
qed

theorem runs_are_not_serialized_witness:
  "wallet (render (quiet (with_balance 1000))) \<noteq> None
   \<and> length (pending (run_schedule (replicate 3 (Trigger None)) (quiet (with_balance 1000)))) = 3
   \<and> notifications (log (run_schedule
        [Trigger None, Trigger None, Complete 0 (fetched_balance 1200), Complete 0 (fetched_balance 1500)]
        (quiet (with_balance 1000)))) = [200, 500]"
proof -
  have w: "wallet (render (quiet (with_balance 1000))) \<noteq> None"
    by (simp add: quiet_def with_balance_def)
  have q: "pending (quiet (with_balance 1000)) = []"
    "btcBalance (store (quiet (with_balance 1000))) = Some 1000"
    "log (quiet (with_balance 1000)) = []"
    by (simp_all add: quiet_def with_balance_def)
  have n: "newBtcBalance (Some \<lparr>balance = Some 1200, resp_tokenBalances = None\<rparr>) = 1200"
    "newBtcBalance (Some \<lparr>balance = Some 1500, resp_tokenBalances = None\<rparr>) = 1500"
    by (simp_all add: newBtcBalance_exact)
  show ?thesis
    using runs_are_not_serialized[OF w, where k = 3 and h = None and p = 1000
        and ?h1.0 = None and ?h2.0 = None
        and ?f1.0 = "Some \<lparr>balance = Some 1200, resp_tokenBalances = None\<rparr>"
        and ?f2.0 = "Some \<lparr>balance = Some 1500, resp_tokenBalances = None\<rparr>"]
      w q n Number_exact[of 200] Number_exact[of 500]
    by (simp add: fetched_balance_def)
qed

text \<open>
  Claim C9 as stated fails: two triggers put two runs in flight, and when both fetch
  1500 over a stored 1000 the second compares the stale 1000 with 1500 and notifies
  the same 500 again.
\<close>

theorem interleaved_runs_counterexample:
  "length (pending (run_schedule [Trigger None, Trigger None] (quiet (with_balance 1000)))) = 2
   \<and> notifications (log (run_schedule
        [Trigger None, Trigger None, Complete 0 (fetched_balance 1500), Complete 0 (fetched_balance 1500)]
        (quiet (with_balance 1000)))) = [500, 500]"
  by (simp add: quiet_def with_balance_def initial_state_def handleBalanceUpdate_begin_def
      handleBalanceUpdate_resume_def fetched_balance_def setBalance_def newBtcBalance_def
      newTokenBalances_def Number_def Let_def)

end
